theory Spec2Isabelle
  imports Complex_Main "HOL-Library.AList" "HOL-Library.Log_Nat"
begin

section \<open>Python values the notebooks rely on\<close>

text \<open>
  The notebooks under \<^verbatim>\<open>src/Entrainment\<close> are straight-line Python. Every operation
  of theirs that can raise is modelled with a result in \<open>exn + 'a\<close>, \<open>Inl\<close> carrying the
  exception; a cell stops at the first exception, since no cell contains a handler.
\<close>

datatype key = K string | I int

datatype exn =
    KeyError key
  | IndexError
  | TypeError
  | SystemError
  | OSError string
  | CalledProcessError int
  | OtherError string

text \<open>Sequencing of two fallible steps: the second runs only when the first returned.\<close>

definition and_then :: "exn + 'a \<Rightarrow> ('a \<Rightarrow> exn + 'b) \<Rightarrow> exn + 'b" where
  "and_then r f = (case r of Inl e \<Rightarrow> Inl e | Inr x \<Rightarrow> f x)"

text \<open>\<^verbatim>\<open>xs[i]\<close> and \<^verbatim>\<open>xs[i] = v\<close> on a sequence: negative indices count from the end,
  anything else out of range raises IndexError.\<close>

definition getitem_seq :: "'a list \<Rightarrow> int \<Rightarrow> exn + 'a" where
  "getitem_seq xs i =
     (if 0 \<le> i \<and> i < int (length xs) then Inr (xs ! nat i)
      else if i < 0 \<and> - int (length xs) \<le> i then Inr (xs ! nat (int (length xs) + i))
      else Inl IndexError)"

definition setitem_seq :: "'a list \<Rightarrow> int \<Rightarrow> 'a \<Rightarrow> exn + 'a list" where
  "setitem_seq xs i v =
     (if 0 \<le> i \<and> i < int (length xs) then Inr (xs[nat i := v])
      else if i < 0 \<and> - int (length xs) \<le> i then Inr (xs[nat (int (length xs) + i) := v])
      else Inl IndexError)"

text \<open>\<^verbatim>\<open>d[k]\<close> on a dict with string keys (insertion ordered, an association list), and
  \<^verbatim>\<open>d[k] = v\<close> on any dict: an existing key keeps its place, a new one goes last.\<close>

definition getitem_dict :: "(string \<times> 'a) list \<Rightarrow> string \<Rightarrow> exn + 'a" where
  "getitem_dict d k = (case map_of d k of None \<Rightarrow> Inl (KeyError (K k)) | Some v \<Rightarrow> Inr v)"

definition setitem_dict :: "('k \<times> 'a) list \<Rightarrow> 'k \<Rightarrow> 'a \<Rightarrow> ('k \<times> 'a) list" where
  "setitem_dict d k v = AList.update k v d"

subsection \<open>Float literals and fixed-point formatting\<close>

text \<open>
  A finite float is modelled by the rational number it denotes. \<open>float64 x\<close> is the
  double nearest to \<open>x\<close>, ties to even: 53 bits of mantissa for magnitudes from
  \<open>2\<^bsup>-1022\<^esup>\<close> on, multiples of \<open>2\<^bsup>-1074\<^esup>\<close> below (overflow is dealt with where a
  result is rounded, in \<open>rnd\<close> below). \<open>format_f d x\<close> is \<^verbatim>\<open>'{:.df}'.format(x)\<close>: the exact value
  of the float rounded to \<open>d\<close> decimals, ties to even.
\<close>

definition round_half_even :: "rat \<Rightarrow> int" where
  "round_half_even x =
     (let f = \<lfloor>x\<rfloor>; d = x - of_int f
      in if d < 1 / 2 then f else if 1 / 2 < d then f + 1 else if even f then f else f + 1)"

definition floor_log2 :: "rat \<Rightarrow> int" where
  "floor_log2 x =
     (let (p, q) = quotient_of x; k = bitlen p - bitlen q
      in if 2 powi k \<le> x then k else k - 1)"

definition float64 :: "rat \<Rightarrow> rat" where
  "float64 x =
     (if x = 0 then 0
      else let e = max (floor_log2 \<bar>x\<bar>) (- 1022) - 52;
               m = round_half_even (\<bar>x\<bar> / 2 powi e)
           in sgn x * of_int m * 2 powi e)"

definition digit_char :: "nat \<Rightarrow> char" where
  "digit_char n = char_of (48 + n)"

fun str_nat :: "nat \<Rightarrow> string" where
  "str_nat n = (if n < 10 then [digit_char n] else str_nat (n div 10) @ [digit_char (n mod 10)])"

declare str_nat.simps [simp del]

primrec frac_digits :: "nat \<Rightarrow> nat \<Rightarrow> string" where
  "frac_digits 0 m = []"
| "frac_digits (Suc d) m = frac_digits d (m div 10) @ [digit_char (m mod 10)]"

definition format_f :: "nat \<Rightarrow> rat \<Rightarrow> string" where
  "format_f d x =
     (let n = nat (round_half_even (\<bar>x\<bar> * 10 ^ d))
      in (if x < 0 then ''-'' else []) @ str_nat (n div 10 ^ d) @
         (if d = 0 then [] else ''.'' @ frac_digits d (n mod 10 ^ d)))"

text \<open>\<^verbatim>\<open>'{:>w}'.format(s)\<close>: \<open>s\<close> right-justified in a field of width \<open>w\<close>.\<close>

definition rjust :: "nat \<Rightarrow> string \<Rightarrow> string" where
  "rjust w s = replicate (w - length s) CHR '' '' @ s"


subsection \<open>Arithmetic on float64\<close>

text \<open>
  The values of numpy's \<^verbatim>\<open>float64\<close> (IEEE 754 binary64): the finite ones, with \<open>Fin 0\<close>
  for \<^verbatim>\<open>0.0\<close> and \<open>NegZero\<close> for \<^verbatim>\<open>-0.0\<close>, the two infinities and NaN. numpy does not raise
  on an invalid operation, a division by zero or an overflow (it warns); the result is
  the one IEEE 754 prescribes.
\<close>

datatype f64 = Fin rat | NegZero | PosInf | NegInf | NaN

fun is_nan :: "f64 \<Rightarrow> bool" where
  "is_nan NaN = True"
| "is_nan _ = False"

fun is_inf :: "f64 \<Rightarrow> bool" where
  "is_inf PosInf = True"
| "is_inf NegInf = True"
| "is_inf _ = False"

fun is_zero :: "f64 \<Rightarrow> bool" where
  "is_zero (Fin x) = (x = 0)"
| "is_zero NegZero = True"
| "is_zero _ = False"

fun is_finite :: "f64 \<Rightarrow> bool" where
  "is_finite (Fin x) = True"
| "is_finite NegZero = True"
| "is_finite _ = False"

text \<open>The sign bit, and the value of a finite float.\<close>

fun negative :: "f64 \<Rightarrow> bool" where
  "negative (Fin x) = (x < 0)"
| "negative NegZero = True"
| "negative NegInf = True"
| "negative _ = False"

fun fval :: "f64 \<Rightarrow> rat" where
  "fval (Fin x) = x"
| "fval _ = 0"

definition inf_of :: "bool \<Rightarrow> f64" where
  "inf_of neg = (if neg then NegInf else PosInf)"

definition zero_of :: "bool \<Rightarrow> f64" where
  "zero_of neg = (if neg then NegZero else Fin 0)"

text \<open>Rounding an exact result to nearest, ties to even. From \<open>threshold\<close> on, halfway
  between the largest double and \<open>2\<^bsup>1024\<^esup>\<close>, the result is an infinity. \<open>neg\<close> is the sign
  of the exact result, which a zero result keeps.\<close>

definition threshold :: rat where
  "threshold = 2 ^ 1024 - 2 ^ 970"

definition rnd :: "bool \<Rightarrow> rat \<Rightarrow> f64" where
  "rnd neg x =
     (if threshold \<le> \<bar>x\<bar> then inf_of neg
      else if float64 x = 0 then zero_of neg
      else Fin (float64 x))"

definition fneg :: "f64 \<Rightarrow> f64" where
  "fneg a =
     (case a of Fin x \<Rightarrow> if x = 0 then NegZero else Fin (- x) | NegZero \<Rightarrow> Fin 0
              | PosInf \<Rightarrow> NegInf | NegInf \<Rightarrow> PosInf | NaN \<Rightarrow> NaN)"

definition fadd :: "f64 \<Rightarrow> f64 \<Rightarrow> f64" where
  "fadd a b =
     (if is_nan a \<or> is_nan b then NaN
      else if is_inf a then (if is_inf b \<and> a \<noteq> b then NaN else a)
      else if is_inf b then b
      else if fval a + fval b = 0 then zero_of (negative a \<and> negative b)
      else rnd (fval a + fval b < 0) (fval a + fval b))"

definition fsub :: "f64 \<Rightarrow> f64 \<Rightarrow> f64" where
  "fsub a b = fadd a (fneg b)"

definition fmul :: "f64 \<Rightarrow> f64 \<Rightarrow> f64" where
  "fmul a b =
     (if is_nan a \<or> is_nan b then NaN
      else if is_inf a \<or> is_inf b then
        (if is_zero a \<or> is_zero b then NaN else inf_of (negative a \<noteq> negative b))
      else rnd (negative a \<noteq> negative b) (fval a * fval b))"

definition fdiv :: "f64 \<Rightarrow> f64 \<Rightarrow> f64" where
  "fdiv a b =
     (if is_nan a \<or> is_nan b then NaN
      else if is_inf a then (if is_inf b then NaN else inf_of (negative a \<noteq> negative b))
      else if is_inf b then zero_of (negative a \<noteq> negative b)
      else if is_zero b then
        (if is_zero a then NaN else inf_of (negative a \<noteq> negative b))
      else rnd (negative a \<noteq> negative b) (fval a / fval b))"





text \<open>The comparisons \<^verbatim>\<open><=\<close> and \<^verbatim>\<open><\<close>: false when an operand is NaN, and the two zeros
  are equal.\<close>

definition fle :: "f64 \<Rightarrow> f64 \<Rightarrow> bool" where
  "fle a b \<longleftrightarrow>
     \<not> is_nan a \<and> \<not> is_nan b \<and>
     (a = NegInf \<or> b = PosInf \<or> (is_finite a \<and> is_finite b \<and> fval a \<le> fval b))"

definition flt :: "f64 \<Rightarrow> f64 \<Rightarrow> bool" where
  "flt a b \<longleftrightarrow> \<not> is_nan a \<and> \<not> is_nan b \<and> \<not> fle b a"

text \<open>A Python \<^verbatim>\<open>int\<close> or a numpy \<^verbatim>\<open>int64\<close> converted to float64.\<close>

definition of_int64 :: "int \<Rightarrow> f64" where
  "of_int64 i = rnd (i < 0) (of_int i)"

subsection \<open>datetime64 and timedelta64\<close>





section \<open>Nested configurations as objects in a store\<close>

text \<open>
  The configuration \<^verbatim>\<open>cfg\<close> is a dict of dicts (and of one list) that the notebooks
  mutate in place and copy with \<^verbatim>\<open>copy.deepcopy\<close>. Whether two names denote the same
  mutable object matters, so dicts and lists live in a store: a value is a scalar or
  a reference to an object, an address is a position in the store, and a new object
  goes to the end of it.
\<close>

type_synonym addr = nat

datatype val = VStr string | VFloat rat | VInt int | VBool bool | VRef addr

datatype obj = Dict "(key \<times> val) list" | PyList "val list"

type_synonym heap = "obj list"

text \<open>The right-hand sides of the notebooks' assignments: literals, \<^verbatim>\<open>{}\<close> and list
  displays such as \<^verbatim>\<open>[{}]\<close>. A display evaluates its elements first and then allocates
  the list.\<close>

datatype expr = StrLit string | FloatLit rat | IntLit int | BoolLit bool
  | EmptyDict | ListLit "expr list"

fun eval_expr :: "expr \<Rightarrow> heap \<Rightarrow> val \<times> heap"
  and eval_exprs :: "expr list \<Rightarrow> heap \<Rightarrow> val list \<times> heap" where
  "eval_expr (StrLit s) h = (VStr s, h)"
| "eval_expr (FloatLit x) h = (VFloat x, h)"
| "eval_expr (IntLit i) h = (VInt i, h)"
| "eval_expr (BoolLit b) h = (VBool b, h)"
| "eval_expr EmptyDict h = (VRef (length h), h @ [Dict []])"
| "eval_expr (ListLit es) h =
     (case eval_exprs es h of (vs, h1) \<Rightarrow> (VRef (length h1), h1 @ [PyList vs]))"
| "eval_exprs [] h = ([], h)"
| "eval_exprs (e # es) h =
     (case eval_expr e h of (v, h1) \<Rightarrow>
      case eval_exprs es h1 of (vs, h2) \<Rightarrow> (v # vs, h2))"

text \<open>\<^verbatim>\<open>c[k]\<close>: a dict looks the key up, a list and a string take an integer index,
  every other combination is a TypeError. A reference beyond the store cannot arise in
  Python; the model answers SystemError there.\<close>

definition getitem :: "heap \<Rightarrow> val \<Rightarrow> key \<Rightarrow> exn + val" where
  "getitem h c k =
     (case c of
        VRef a \<Rightarrow>
          (if a < length h then
             (case h ! a of
                Dict d \<Rightarrow> (case map_of d k of None \<Rightarrow> Inl (KeyError k) | Some v \<Rightarrow> Inr v)
              | PyList vs \<Rightarrow> (case k of I i \<Rightarrow> getitem_seq vs i | K _ \<Rightarrow> Inl TypeError))
           else Inl SystemError)
      | VStr s \<Rightarrow>
          (case k of I i \<Rightarrow> and_then (getitem_seq s i) (\<lambda>ch. Inr (VStr [ch]))
                   | K _ \<Rightarrow> Inl TypeError)
      | _ \<Rightarrow> Inl TypeError)"

text \<open>\<^verbatim>\<open>c[k] = v\<close>: only dicts and lists support item assignment.\<close>

definition setitem :: "heap \<Rightarrow> val \<Rightarrow> key \<Rightarrow> val \<Rightarrow> exn + heap" where
  "setitem h c k v =
     (case c of
        VRef a \<Rightarrow>
          (if a < length h then
             (case h ! a of
                Dict d \<Rightarrow> Inr (h[a := Dict (setitem_dict d k v)])
              | PyList vs \<Rightarrow>
                  (case k of
                     I i \<Rightarrow> and_then (setitem_seq vs i v) (\<lambda>vs'. Inr (h[a := PyList vs']))
                   | K _ \<Rightarrow> Inl TypeError))
           else Inl SystemError)
      | _ \<Rightarrow> Inl TypeError)"

text \<open>\<^verbatim>\<open>c[k1][k2]...[kn]\<close>, from left to right.\<close>

fun subscripts :: "heap \<Rightarrow> val \<Rightarrow> key list \<Rightarrow> exn + val" where
  "subscripts h c [] = Inr c"
| "subscripts h c (k # ks) = and_then (getitem h c k) (\<lambda>c'. subscripts h c' ks)"

subsection \<open>copy.deepcopy\<close>

text \<open>
  \<^verbatim>\<open>copy.deepcopy(x, memo)\<close> returns scalars as they are. For a dict or a list it
  answers from the memo when the object has been copied already; otherwise it creates
  the new, empty container, records it in the memo and then fills it with the deep
  copies of the items, in order. The memo makes shared and cyclic structures
  terminate. The model counts the nesting depth down from a bound; \<open>deepcopy\<close> starts
  it above the number of objects in the store, which is never exhausted on a store
  without dangling references (lemma \<open>deepcopy_total\<close>).
\<close>

fun children :: "obj \<Rightarrow> val list" where
  "children (Dict d) = map snd d"
| "children (PyList vs) = vs"

fun with_children :: "obj \<Rightarrow> val list \<Rightarrow> obj" where
  "with_children (Dict d) vs = Dict (zip (map fst d) vs)"
| "with_children (PyList _) vs = PyList vs"

fun fold_copy ::
  "('s \<Rightarrow> 'a \<Rightarrow> ('s \<times> 'b) option) \<Rightarrow> 's \<Rightarrow> 'a list \<Rightarrow> ('s \<times> 'b list) option" where
  "fold_copy f s [] = Some (s, [])"
| "fold_copy f s (x # xs) =
     (case f s x of
        None \<Rightarrow> None
      | Some (s1, y) \<Rightarrow>
          (case fold_copy f s1 xs of None \<Rightarrow> None | Some (s2, ys) \<Rightarrow> Some (s2, y # ys)))"

type_synonym memo = "(addr \<times> addr) list"

primrec deepcopy_rec :: "nat \<Rightarrow> heap \<times> memo \<Rightarrow> val \<Rightarrow> ((heap \<times> memo) \<times> val) option" where
  "deepcopy_rec 0 s v = None"
| "deepcopy_rec (Suc n) s v =
     (case v of
        VRef a \<Rightarrow>
          (case map_of (snd s) a of
             Some b \<Rightarrow> Some (s, VRef b)
           | None \<Rightarrow>
               if a < length (fst s) then
                 (let x = fst s ! a; b = length (fst s)
                  in case fold_copy (deepcopy_rec n)
                            (fst s @ [with_children x []], (a, b) # snd s) (children x) of
                       None \<Rightarrow> None
                     | Some ((h2, m2), vs) \<Rightarrow> Some ((h2[b := with_children x vs], m2), VRef b))
               else None)
      | _ \<Rightarrow> Some (s, v))"

definition deepcopy :: "heap \<Rightarrow> val \<Rightarrow> exn + val \<times> heap" where
  "deepcopy h v =
     (case deepcopy_rec (Suc (length h)) (h, []) v of
        None \<Rightarrow> Inl SystemError
      | Some ((h', m), v') \<Rightarrow> Inr (v', h'))"

section \<open>The run notebooks\<close>

text \<open>
  \<^verbatim>\<open>run_Entrainment.ipynb\<close> and \<^verbatim>\<open>run_Entrainment-KC04.ipynb\<close> create a
  \<^verbatim>\<open>Model\<close>, build it, ask it for the default configuration, update that
  configuration field by field, collect one deep copy of it per turbulence scheme in
  \<^verbatim>\<open>cfgs\<close> with a label in \<^verbatim>\<open>labels\<close>, and hand both lists to \<^verbatim>\<open>run_batch\<close>. After
  \<^verbatim>\<open>cfg = m.init_config()\<close> the cells consist of five kinds of statements.
\<close>

datatype stmt =
    Assign "key list" key expr  \<comment> \<open>\<^verbatim>\<open>cfg[k1]...[kn][k] = e\<close>\<close>
  | InitLists                   \<comment> \<open>\<^verbatim>\<open>cfgs = []\<close> and \<^verbatim>\<open>labels = []\<close>\<close>
  | AppendCfg                   \<comment> \<open>\<^verbatim>\<open>cfgs.append(copy.deepcopy(cfg))\<close>\<close>
  | AppendLabel string          \<comment> \<open>\<^verbatim>\<open>labels.append(l)\<close>\<close>
  | RunBatch nat                \<comment> \<open>\<^verbatim>\<open>sims = m.run_batch(configs=cfgs, labels=labels, nproc=n)\<close>\<close>

text \<open>The variables of a run notebook, the store, what cell 3 printed and a log of the
  calls of \<^verbatim>\<open>run_batch\<close> with their arguments. The two lists are bound by cell 7,
  before their first use; the model has them empty until then.\<close>

record 'r nb_state =
  heap :: heap
  cfg :: val
  cfgs :: "val list"
  labels :: "string list"
  sims :: "'r option"
  batches :: "(val list \<times> string list \<times> nat) list"
  stdout :: "string list"

text \<open>The external collaborators, \<^verbatim>\<open>gotmtool\<close>'s \<^verbatim>\<open>Model\<close> and its methods, are
  parameters: \<open>'m\<close> is the model object, \<open>'r\<close> what \<^verbatim>\<open>run_batch\<close> returns.
  \<^verbatim>\<open>init_config\<close> returns the configuration it built, with the store that holds it;
  \<^verbatim>\<open>run_batch\<close> reads the configurations from the store.\<close>

record ('m, 'r) run_ext =
  Model :: "string \<Rightarrow> string \<Rightarrow> exn + 'm"
  environ :: "'m \<Rightarrow> (string \<times> string) list"
  build :: "'m \<Rightarrow> exn + unit"
  init_config :: "'m \<Rightarrow> exn + val \<times> heap"
  run_batch :: "'m \<Rightarrow> heap \<Rightarrow> val list \<Rightarrow> string list \<Rightarrow> nat \<Rightarrow> exn + 'r"

text \<open>An assignment evaluates its right-hand side first, then the container
  \<^verbatim>\<open>cfg[k1]...[kn]\<close>, then stores.\<close>

fun exec_stmt :: "('m, 'r) run_ext \<Rightarrow> 'm \<Rightarrow> stmt \<Rightarrow> 'r nb_state \<Rightarrow> exn + 'r nb_state" where
  "exec_stmt ext m (Assign path k e) s =
     (case eval_expr e (heap s) of (v, h1) \<Rightarrow>
        and_then (subscripts h1 (cfg s) path) (\<lambda>c.
        and_then (setitem h1 c k v) (\<lambda>h2. Inr (s\<lparr>heap := h2\<rparr>))))"
| "exec_stmt ext m InitLists s = Inr (s\<lparr>cfgs := [], labels := []\<rparr>)"
| "exec_stmt ext m AppendCfg s =
     and_then (deepcopy (heap s) (cfg s)) (\<lambda>(v, h1).
     Inr (s\<lparr>heap := h1, cfgs := cfgs s @ [v]\<rparr>))"
| "exec_stmt ext m (AppendLabel l) s = Inr (s\<lparr>labels := labels s @ [l]\<rparr>)"
| "exec_stmt ext m (RunBatch nproc) s =
     and_then (run_batch ext m (heap s) (cfgs s) (labels s) nproc) (\<lambda>r.
     Inr (s\<lparr>sims := Some r, batches := batches s @ [(cfgs s, labels s, nproc)]\<rparr>))"

fun exec_stmts :: "('m, 'r) run_ext \<Rightarrow> 'm \<Rightarrow> stmt list \<Rightarrow> 'r nb_state \<Rightarrow> exn + 'r nb_state" where
  "exec_stmts ext m [] s = Inr s"
| "exec_stmts ext m (st # sts) s = and_then (exec_stmt ext m st s) (exec_stmts ext m sts)"

subsection \<open>The cells\<close>

definition title :: string where
  "title = ''Shear-driven Entrainment''"

definition nlev :: int where
  "nlev = 100"

definition e6list :: "rat list" where
  "e6list = [float64 1.0, float64 4.0, float64 6.0, float64 7.0]"

definition c4list :: "rat list" where
  "c4list = [float64 0.15, float64 0.3, float64 0.555, float64 1.2]"

text \<open>Cell 6, ``Update the configuration'', the same in both notebooks.\<close>

definition update_configuration :: "stmt list" where
  "update_configuration =
    [Assign [] (K ''title'') (StrLit title),
      Assign [K ''location''] (K ''name'') (StrLit ''equator''),
      Assign [K ''location''] (K ''latitude'') (FloatLit (float64 0.0)),
      Assign [K ''location''] (K ''longitude'') (FloatLit (float64 0.0)),
      Assign [K ''location''] (K ''depth'') (FloatLit (float64 30.0)),
      Assign [K ''time''] (K ''start'') (StrLit ''2005-01-01 00:00:00''),
      Assign [K ''time''] (K ''stop'') (StrLit ''2005-01-01 06:00:00''),
      Assign [K ''time''] (K ''dt'') (IntLit 10),
      Assign [K ''grid''] (K ''nlev'') (IntLit nlev),
      Assign [] (K ''output'') EmptyDict,
      Assign [K ''output''] (K ''gotm_out'') EmptyDict,
      Assign [K ''output'', K ''gotm_out''] (K ''use'') (BoolLit True),
      Assign [K ''output'', K ''gotm_out''] (K ''title'') (StrLit title),
      Assign [K ''output'', K ''gotm_out''] (K ''time_unit'') (StrLit ''dt''),
      Assign [K ''output'', K ''gotm_out''] (K ''time_step'') (IntLit 90),
      Assign [K ''output'', K ''gotm_out''] (K ''variables'') (ListLit [EmptyDict]),
      Assign [K ''output'', K ''gotm_out'', K ''variables'', I 0] (K ''source'') (StrLit ''*''),
      Assign [K ''output'', K ''gotm_out''] (K ''k1_stop'') (IntLit (nlev + 1)),
      Assign [K ''output'', K ''gotm_out''] (K ''k_stop'') (IntLit nlev),
      Assign [K ''temperature''] (K ''method'') (StrLit ''buoyancy''),
      Assign [K ''temperature'', K ''two_layer''] (K ''t_s'') (FloatLit (float64 20.0)),
      Assign [K ''temperature''] (K ''NN'') (FloatLit (float64 0.0001)),
      Assign [K ''salinity''] (K ''method'') (StrLit ''constant''),
      Assign [K ''salinity''] (K ''constant_value'') (FloatLit (float64 20.0)),
      Assign [K ''surface'', K ''fluxes''] (K ''method'') (StrLit ''off''),
      Assign [K ''surface'', K ''fluxes'', K ''heat''] (K ''method'') (StrLit ''constant''),
      Assign [K ''surface'', K ''fluxes'', K ''heat''] (K ''constant_value'') (FloatLit (float64 (- 0.000000000001))),
      Assign [K ''surface'', K ''fluxes'', K ''tx''] (K ''method'') (StrLit ''constant''),
      Assign [K ''surface'', K ''fluxes'', K ''tx''] (K ''constant_value'') (FloatLit (float64 0.1027)),
      Assign [K ''surface'', K ''fluxes'', K ''ty''] (K ''method'') (StrLit ''constant''),
      Assign [K ''surface'', K ''fluxes'', K ''ty''] (K ''constant_value'') (FloatLit (float64 0.0)),
      Assign [K ''waves'', K ''stokes_drift'', K ''us''] (K ''method'') (StrLit ''exponential''),
      Assign [K ''waves'', K ''stokes_drift'', K ''vs''] (K ''method'') (StrLit ''exponential''),
      Assign [K ''waves'', K ''stokes_drift'', K ''dusdz''] (K ''method'') (StrLit ''us''),
      Assign [K ''waves'', K ''stokes_drift'', K ''dvsdz''] (K ''method'') (StrLit ''vs''),
      Assign [K ''waves'', K ''stokes_drift'', K ''exponential'', K ''us0''] (K ''method'') (StrLit ''constant''),
      Assign [K ''waves'', K ''stokes_drift'', K ''exponential'', K ''us0''] (K ''constant_value'') (FloatLit (float64 0.2)),
      Assign [K ''waves'', K ''stokes_drift'', K ''exponential'', K ''vs0''] (K ''method'') (StrLit ''constant''),
      Assign [K ''waves'', K ''stokes_drift'', K ''exponential'', K ''vs0''] (K ''constant_value'') (FloatLit (float64 0.0)),
      Assign [K ''waves'', K ''stokes_drift'', K ''exponential'', K ''ds''] (K ''method'') (StrLit ''constant''),
      Assign [K ''waves'', K ''stokes_drift'', K ''exponential'', K ''ds''] (K ''constant_value'') (FloatLit (float64 5.0)),
      Assign [K ''eq_state''] (K ''method'') (StrLit ''unesco''),
      Assign [K ''eq_state''] (K ''form'') (StrLit ''full-pot'')]"

text \<open>Cells 7 to 9 of \<^verbatim>\<open>run_Entrainment.ipynb\<close>.\<close>

definition run_Entrainment_cell8 :: "stmt list" where
  "run_Entrainment_cell8 =
    [Assign [K ''turbulence''] (K ''turb_method'') (StrLit ''second_order''),
      Assign [K ''turbulence''] (K ''tke_method'') (StrLit ''tke''),
      Assign [K ''turbulence''] (K ''len_scale_method'') (StrLit ''gls''),
      Assign [K ''turbulence'', K ''scnd''] (K ''method'') (StrLit ''weak_eq_kb_eq''),
      Assign [K ''turbulence'', K ''scnd''] (K ''scnd_coeff'') (StrLit ''canuto-a''),
      Assign [K ''turbulence'', K ''turb_param''] (K ''length_lim'') (StrLit ''false''),
      Assign [K ''turbulence'', K ''turb_param''] (K ''compute_c3'') (StrLit ''true''),
      Assign [K ''turbulence'', K ''turb_param''] (K ''Ri_st'') (FloatLit (float64 0.2)),
      Assign [K ''turbulence'', K ''generic''] (K ''gen_m'') (FloatLit (float64 1.5)),
      Assign [K ''turbulence'', K ''generic''] (K ''gen_n'') (FloatLit (float64 (- 1.0))),
      Assign [K ''turbulence'', K ''generic''] (K ''gen_p'') (FloatLit (float64 3.0)),
      Assign [K ''turbulence'', K ''generic''] (K ''cpsi1'') (FloatLit (float64 1.44)),
      Assign [K ''turbulence'', K ''generic''] (K ''cpsi2'') (FloatLit (float64 1.92)),
      Assign [K ''turbulence'', K ''generic''] (K ''cpsi3minus'') (FloatLit (float64 (- 0.63))),
      Assign [K ''turbulence'', K ''generic''] (K ''cpsi3plus'') (FloatLit (float64 1.0)),
      Assign [K ''turbulence'', K ''generic''] (K ''sig_kpsi'') (FloatLit (float64 1.0)),
      Assign [K ''turbulence'', K ''generic''] (K ''sig_psi'') (FloatLit (float64 1.3)),
      AppendCfg,
      AppendLabel ''GLS-C01A'',
      Assign [K ''turbulence''] (K ''turb_method'') (StrLit ''cvmix''),
      Assign [K ''cvmix'', K ''surface_layer'', K ''kpp''] (K ''langmuir_method'') (StrLit ''none''),
      AppendCfg,
      AppendLabel ''KPP-CVMix'',
      Assign [K ''cvmix'', K ''surface_layer'', K ''kpp''] (K ''langmuir_method'') (StrLit ''lwf16''),
      AppendCfg,
      AppendLabel ''KPPLT-VR12'',
      Assign [K ''cvmix'', K ''surface_layer'', K ''kpp''] (K ''langmuir_method'') (StrLit ''lf17''),
      AppendCfg,
      AppendLabel ''KPPLT-LF17'']"

definition run_Entrainment_code :: "stmt list" where
  "run_Entrainment_code =
     update_configuration @ [InitLists] @ run_Entrainment_cell8 @ [RunBatch 4]"

text \<open>Cells 7 to 10 of \<^verbatim>\<open>run_Entrainment-KC04.ipynb\<close>. The bodies of its two
  \<^verbatim>\<open>for\<close> loops are functions of the loop variable.\<close>

definition KC04_MY :: "stmt list" where
  "KC04_MY =
    [Assign [K ''turbulence''] (K ''turb_method'') (StrLit ''second_order''),
      Assign [K ''turbulence''] (K ''tke_method'') (StrLit ''mellor_yamada''),
      Assign [K ''turbulence''] (K ''len_scale_method'') (StrLit ''mellor_yamada''),
      Assign [K ''turbulence'', K ''scnd''] (K ''method'') (StrLit ''quasi_eq''),
      Assign [K ''turbulence'', K ''scnd''] (K ''scnd_coeff'') (StrLit ''kantha_clayson''),
      Assign [K ''turbulence'', K ''turb_param''] (K ''length_lim'') (StrLit ''false''),
      Assign [K ''turbulence'', K ''turb_param''] (K ''compute_c3'') (StrLit ''true''),
      Assign [K ''turbulence'', K ''turb_param''] (K ''Ri_st'') (FloatLit (float64 0.2)),
      Assign [K ''turbulence'', K ''turb_param''] (K ''compute_kappa'') (StrLit ''true'')]"

definition for_e6 :: "rat \<Rightarrow> stmt list" where
  "for_e6 e6 =
    [Assign [K ''turbulence'', K ''my''] (K ''e6'') (FloatLit e6),
      AppendCfg,
      AppendLabel (''KC04-MY-e6-'' @ format_f 1 e6)]"

definition KC04_k_omega :: "stmt list" where
  "KC04_k_omega =
    [Assign [K ''turbulence''] (K ''turb_method'') (StrLit ''second_order''),
      Assign [K ''turbulence''] (K ''tke_method'') (StrLit ''tke''),
      Assign [K ''turbulence''] (K ''len_scale_method'') (StrLit ''gls''),
      Assign [K ''turbulence'', K ''scnd''] (K ''method'') (StrLit ''quasi_eq''),
      Assign [K ''turbulence'', K ''scnd''] (K ''scnd_coeff'') (StrLit ''kantha_clayson''),
      Assign [K ''turbulence'', K ''turb_param''] (K ''length_lim'') (StrLit ''false''),
      Assign [K ''turbulence'', K ''turb_param''] (K ''compute_c3'') (StrLit ''true''),
      Assign [K ''turbulence'', K ''turb_param''] (K ''Ri_st'') (FloatLit (float64 0.2)),
      Assign [K ''turbulence'', K ''turb_param''] (K ''compute_kappa'') (StrLit ''true''),
      Assign [K ''turbulence'', K ''generic''] (K ''gen_m'') (FloatLit (float64 0.5)),
      Assign [K ''turbulence'', K ''generic''] (K ''gen_n'') (FloatLit (float64 (- 1.0))),
      Assign [K ''turbulence'', K ''generic''] (K ''gen_p'') (FloatLit (float64 (- 1.0))),
      Assign [K ''turbulence'', K ''generic''] (K ''cpsi1'') (FloatLit (float64 0.55)),
      Assign [K ''turbulence'', K ''generic''] (K ''cpsi2'') (FloatLit (float64 0.833)),
      Assign [K ''turbulence'', K ''generic''] (K ''cpsi3minus'') (FloatLit (float64 0.0)),
      Assign [K ''turbulence'', K ''generic''] (K ''cpsi3plus'') (FloatLit (float64 0.0)),
      Assign [K ''turbulence'', K ''generic''] (K ''sig_kpsi'') (FloatLit (float64 2.0)),
      Assign [K ''turbulence'', K ''generic''] (K ''sig_psi'') (FloatLit (float64 2.0)),
      Assign [K ''turbulence'', K ''generic''] (K ''gen_d'') (FloatLit (float64 (- 1.087))),
      Assign [K ''turbulence'', K ''generic''] (K ''gen_alpha'') (FloatLit (float64 (- 4.97))),
      Assign [K ''turbulence'', K ''generic''] (K ''gen_l'') (FloatLit (float64 0.09))]"

definition for_c4 :: "rat \<Rightarrow> stmt list" where
  "for_c4 c4 =
    [Assign [K ''turbulence'', K ''generic''] (K ''cpsi4'') (FloatLit c4),
      AppendCfg,
      AppendLabel (''KC04-k-omega-c4-'' @ format_f 3 c4)]"

definition run_KC04_cell8 :: "stmt list" where
  "run_KC04_cell8 =
     KC04_MY @ concat (map for_e6 e6list) @ KC04_k_omega @ concat (map for_c4 c4list)"

definition run_KC04_cell9 :: "stmt list" where
  "run_KC04_cell9 =
    [Assign [K ''waves'', K ''stokes_drift'', K ''us''] (K ''method'') (StrLit ''off''),
      Assign [K ''waves'', K ''stokes_drift'', K ''vs''] (K ''method'') (StrLit ''off''),
      Assign [K ''waves'', K ''stokes_drift'', K ''dusdz''] (K ''method'') (StrLit ''off''),
      Assign [K ''waves'', K ''stokes_drift'', K ''dvsdz''] (K ''method'') (StrLit ''off''),
      Assign [K ''turbulence''] (K ''turb_method'') (StrLit ''second_order''),
      Assign [K ''turbulence''] (K ''tke_method'') (StrLit ''mellor_yamada''),
      Assign [K ''turbulence''] (K ''len_scale_method'') (StrLit ''mellor_yamada''),
      Assign [K ''turbulence'', K ''scnd''] (K ''method'') (StrLit ''quasi_eq''),
      Assign [K ''turbulence'', K ''scnd''] (K ''scnd_coeff'') (StrLit ''kantha_clayson''),
      Assign [K ''turbulence'', K ''turb_param''] (K ''length_lim'') (StrLit ''false''),
      Assign [K ''turbulence'', K ''turb_param''] (K ''compute_c3'') (StrLit ''true''),
      Assign [K ''turbulence'', K ''turb_param''] (K ''Ri_st'') (FloatLit (float64 0.2)),
      Assign [K ''turbulence'', K ''turb_param''] (K ''compute_kappa'') (StrLit ''true''),
      Assign [K ''turbulence'', K ''my''] (K ''e6'') (FloatLit (float64 4.0)),
      AppendCfg,
      AppendLabel ''KC04-MY-NS'',
      Assign [K ''turbulence''] (K ''turb_method'') (StrLit ''second_order''),
      Assign [K ''turbulence''] (K ''tke_method'') (StrLit ''tke''),
      Assign [K ''turbulence''] (K ''len_scale_method'') (StrLit ''gls''),
      Assign [K ''turbulence'', K ''scnd''] (K ''method'') (StrLit ''quasi_eq''),
      Assign [K ''turbulence'', K ''scnd''] (K ''scnd_coeff'') (StrLit ''kantha_clayson''),
      Assign [K ''turbulence'', K ''turb_param''] (K ''length_lim'') (StrLit ''false''),
      Assign [K ''turbulence'', K ''turb_param''] (K ''compute_c3'') (StrLit ''true''),
      Assign [K ''turbulence'', K ''turb_param''] (K ''Ri_st'') (FloatLit (float64 0.2)),
      Assign [K ''turbulence'', K ''turb_param''] (K ''compute_kappa'') (StrLit ''true''),
      Assign [K ''turbulence'', K ''generic''] (K ''gen_m'') (FloatLit (float64 0.5)),
      Assign [K ''turbulence'', K ''generic''] (K ''gen_n'') (FloatLit (float64 (- 1.0))),
      Assign [K ''turbulence'', K ''generic''] (K ''gen_p'') (FloatLit (float64 (- 1.0))),
      Assign [K ''turbulence'', K ''generic''] (K ''cpsi1'') (FloatLit (float64 0.55)),
      Assign [K ''turbulence'', K ''generic''] (K ''cpsi2'') (FloatLit (float64 0.833)),
      Assign [K ''turbulence'', K ''generic''] (K ''cpsi3minus'') (FloatLit (float64 0.0)),
      Assign [K ''turbulence'', K ''generic''] (K ''cpsi3plus'') (FloatLit (float64 0.0)),
      Assign [K ''turbulence'', K ''generic''] (K ''sig_kpsi'') (FloatLit (float64 2.0)),
      Assign [K ''turbulence'', K ''generic''] (K ''sig_psi'') (FloatLit (float64 2.0)),
      Assign [K ''turbulence'', K ''generic''] (K ''gen_d'') (FloatLit (float64 (- 1.087))),
      Assign [K ''turbulence'', K ''generic''] (K ''gen_alpha'') (FloatLit (float64 (- 4.97))),
      Assign [K ''turbulence'', K ''generic''] (K ''gen_l'') (FloatLit (float64 0.09)),
      Assign [K ''turbulence'', K ''generic''] (K ''cpsi4'') (FloatLit (float64 0.15)),
      AppendCfg,
      AppendLabel ''KC04-k-omega-NS'']"

definition run_KC04_code :: "stmt list" where
  "run_KC04_code =
     update_configuration @ [InitLists] @ run_KC04_cell8 @ run_KC04_cell9 @ [RunBatch 4]"

subsection \<open>A notebook, run from the top\<close>

record notebook =
  nb_name :: string
  nb_code :: "stmt list"

definition run_Entrainment :: notebook where
  "run_Entrainment = \<lparr> nb_name = ''Entrainment'', nb_code = run_Entrainment_code \<rparr>"

definition run_Entrainment_KC04 :: notebook where
  "run_Entrainment_KC04 = \<lparr> nb_name = ''Entrainment-KC04'', nb_code = run_KC04_code \<rparr>"

text \<open>Cell 3 prints one line per entry of \<^verbatim>\<open>m.environ\<close>:
  \<^verbatim>\<open>print('{:>15s}: {}'.format(key, m.environ[key]))\<close>.\<close>

definition print_environ :: "(string \<times> string) list \<Rightarrow> string list" where
  "print_environ env = map (\<lambda>(k, v). rjust 15 k @ '': '' @ v) env"

definition init_state :: "string list \<Rightarrow> val \<Rightarrow> heap \<Rightarrow> 'r nb_state" where
  "init_state out c h =
     \<lparr> heap = h, cfg = c, cfgs = [], labels = [], sims = None, batches = [], stdout = out \<rparr>"

definition run_notebook :: "('m, 'r) run_ext \<Rightarrow> notebook \<Rightarrow> exn + 'r nb_state" where
  "run_notebook ext nb =
     and_then (Model ext (nb_name nb) ''../gotmtool/.gotm_env.yaml'') (\<lambda>m.
     and_then (build ext m) (\<lambda>_.
     and_then (init_config ext m) (\<lambda>(c, h).
     exec_stmts ext m (nb_code nb) (init_state (print_environ (environ ext m)) c h))))"

section \<open>Output datasets\<close>

text \<open>
  The dataset returned by \<^verbatim>\<open>load_data\<close> is used through three of its variables:
  \<^verbatim>\<open>NN\<close> (dimensions time, z, y, x) and \<^verbatim>\<open>u_taus\<close> (time, y, x), taken to hold float64
  values, and the coordinate \<^verbatim>\<open>time\<close>, taken to be decoded to \<^verbatim>\<open>datetime64[ns]\<close>, as the
  division by \<^verbatim>\<open>np.timedelta64(1, 's')\<close> in cell 5 expects.
\<close>

record gotm_data =
  NN :: "f64 list list list list"
  u_taus :: "f64 list list list"
  time :: "int list"


section \<open>The plot notebook\<close>

text \<open>
  \<^verbatim>\<open>plot_Entrainment-KC04-MY.ipynb\<close> names the cases, links two run directories,
  loads the output of every case, computes the mixed layer depth that Price (1979)
  predicts and draws it with the depth found in each simulation.
\<close>

subsection \<open>Case names and plot styles (cell 2)\<close>

text \<open>
  Cell 2 builds the list \<^verbatim>\<open>casenames\<close> and the dicts \<^verbatim>\<open>labels\<close>, \<^verbatim>\<open>colors\<close> and
  \<^verbatim>\<open>markers\<close> (the field \<open>labels_plot\<close> is the notebook's \<^verbatim>\<open>labels\<close>; the name
  \<open>labels\<close> is taken by the list of the run notebooks). A colour is a name or the value
  of the colormap \<^verbatim>\<open>cm.get_cmap('rainbow')\<close> at a fraction.
\<close>

datatype color = Named string | Rainbow f64

record plot_vars =
  casenames :: "string list"
  labels_plot :: "(string \<times> string) list"
  colors :: "(string \<times> color) list"
  markers :: "(string \<times> string) list"

text \<open>\<^verbatim>\<open>np.linspace(a, b, n)\<close>: \<open>n\<close> points from \<open>a\<close> to \<open>b\<close>, both ends included, computed
  as numpy does: \<^verbatim>\<open>step = (b - a)/(n - 1)\<close>, the points \<^verbatim>\<open>i*step + a\<close> (or
  \<^verbatim>\<open>i/(n - 1)*(b - a) + a\<close> when the step is zero), and the last one set to \<open>b\<close>.\<close>

definition linspace :: "f64 \<Rightarrow> f64 \<Rightarrow> nat \<Rightarrow> f64 list" where
  "linspace a b n =
     (let delta = fsub b a; d = of_int64 (int (n - 1)) in
      if n = 0 then []
      else if n = 1 then [fadd (fmul (Fin 0) delta) a]
      else let step = fdiv delta d;
               ys = (if is_zero step
                     then map (\<lambda>i. fadd (fmul (fdiv (of_int64 (int i)) d) delta) a) [0..<n]
                     else map (\<lambda>i. fadd (fmul (of_int64 (int i)) step) a) [0..<n])
           in butlast ys @ [b])"

text \<open>The body of \<^verbatim>\<open>for i, e6 in enumerate(e6list)\<close>: one append to \<^verbatim>\<open>casenames\<close>, then
  three stores under the key \<^verbatim>\<open>casenames[i+nkpp]\<close>, each reading the list again.\<close>

definition e6_body :: "nat \<Rightarrow> f64 list \<Rightarrow> nat \<Rightarrow> rat \<Rightarrow> plot_vars \<Rightarrow> exn + plot_vars" where
  "e6_body nkpp ifrac i e6 st =
     (let st1 = st\<lparr>casenames := casenames st @ [''KC04-MY-e6-'' @ format_f 1 e6]\<rparr> in
      and_then (getitem_seq (casenames st1) (int (i + nkpp))) (\<lambda>k1.
      let st2 = st1\<lparr>labels_plot := setitem_dict (labels_plot st1) k1 (''$e_6$='' @ format_f 1 e6)\<rparr> in
      and_then (getitem_seq ifrac (int i)) (\<lambda>x.
      and_then (getitem_seq (casenames st2) (int (i + nkpp))) (\<lambda>k2.
      let st3 = st2\<lparr>colors := setitem_dict (colors st2) k2 (Rainbow x)\<rparr> in
      and_then (getitem_seq (casenames st3) (int (i + nkpp))) (\<lambda>k3.
      Inr (st3\<lparr>markers := setitem_dict (markers st3) k3 ''o''\<rparr>))))))"

fun e6_loop :: "nat \<Rightarrow> f64 list \<Rightarrow> nat \<Rightarrow> rat list \<Rightarrow> plot_vars \<Rightarrow> exn + plot_vars" where
  "e6_loop nkpp ifrac i [] st = Inr st"
| "e6_loop nkpp ifrac i (e6 # rest) st =
     and_then (e6_body nkpp ifrac i e6 st) (e6_loop nkpp ifrac (Suc i) rest)"

text \<open>The three stores under \<^verbatim>\<open>casenames[-1]\<close> after \<^verbatim>\<open>casenames.append('KC04-MY-NS')\<close>.\<close>

definition no_stokes_case :: "plot_vars \<Rightarrow> exn + plot_vars" where
  "no_stokes_case st =
     (let st1 = st\<lparr>casenames := casenames st @ [''KC04-MY-NS'']\<rparr> in
      and_then (getitem_seq (casenames st1) (-1)) (\<lambda>k1.
      let st2 = st1\<lparr>labels_plot := setitem_dict (labels_plot st1) k1 ''w/o Stokes''\<rparr> in
      and_then (getitem_seq (casenames st2) (-1)) (\<lambda>k2.
      let st3 = st2\<lparr>colors := setitem_dict (colors st2) k2 (Named ''k'')\<rparr> in
      and_then (getitem_seq (casenames st3) (-1)) (\<lambda>k3.
      Inr (st3\<lparr>markers := setitem_dict (markers st3) k3 ''o''\<rparr>)))))"

definition plot_vars_init :: plot_vars where
  "plot_vars_init =
     \<lparr> casenames = [''KPP-CVMix'', ''KPPLT-LF17''],
       labels_plot = [(''KPP-CVMix'', ''KPP-CVMix''), (''KPPLT-LF17'', ''KPPLT-LF17'')],
       colors = [(''KPP-CVMix'', Named ''k''), (''KPPLT-LF17'', Named ''gray'')],
       markers = [(''KPP-CVMix'', ''x''), (''KPPLT-LF17'', ''x'')] \<rparr>"

text \<open>The part of cell 2 that builds the four variables, for any list of \<^verbatim>\<open>e6\<close> values;
  the notebook runs it on \<open>e6list\<close>.\<close>

definition case_styles :: "rat list \<Rightarrow> exn + plot_vars" where
  "case_styles e6s =
     (let nkpp = length (casenames plot_vars_init);
          ifrac = linspace (Fin 0) (Fin 1) (length e6s)
      in and_then (e6_loop nkpp ifrac 0 e6s plot_vars_init) no_stokes_case)"

subsection \<open>Linking and loading the run directories (cells 2 and 4)\<close>

text \<open>The file system and \<^verbatim>\<open>gotmtool\<close>'s \<^verbatim>\<open>Simulation\<close> are external: \<open>'w\<close> is the
  state of the file system, \<open>'sim\<close> a simulation object. \<^verbatim>\<open>get_bld_maxNN\<close> comes from
  \<^verbatim>\<open>gotmtool.diags\<close>.\<close>

record ('w, 'sim) plot_ext =
  os_path_islink :: "'w \<Rightarrow> string \<Rightarrow> bool"
  os_symlink :: "'w \<Rightarrow> string \<Rightarrow> string \<Rightarrow> exn + 'w"
  Simulation :: "string \<Rightarrow> exn + 'sim"
  load_data :: "'w \<Rightarrow> 'sim \<Rightarrow> exn + gotm_data"
  get_bld_maxNN :: "f64 list list \<Rightarrow> exn + f64 list"

definition casedir :: string where
  "casedir = ''../gotm/run/Entrainment-KC04''"




text \<open>Cell 4: \<^verbatim>\<open>sim = Simulation(path=casedir+'/'+case)\<close>, \<^verbatim>\<open>sims[case] = sim\<close>,
  \<^verbatim>\<open>dataset[case] = sim.load_data()\<close> for every case, starting from two empty dicts.\<close>

fun load_loop ::
  "('w, 'sim) plot_ext \<Rightarrow> 'w \<Rightarrow> string \<Rightarrow> string list \<Rightarrow>
   (string \<times> 'sim) list \<times> (string \<times> gotm_data) list \<Rightarrow>
   exn + (string \<times> 'sim) list \<times> (string \<times> gotm_data) list" where
  "load_loop ext w dir [] (sims_d, dataset) = Inr (sims_d, dataset)"
| "load_loop ext w dir (c # cs) (sims_d, dataset) =
     and_then (Simulation ext (dir @ ''/'' @ c)) (\<lambda>sim.
     and_then (load_data ext w sim) (\<lambda>d.
     load_loop ext w dir cs (setitem_dict sims_d c sim, setitem_dict dataset c d)))"

definition load_cell ::
  "('w, 'sim) plot_ext \<Rightarrow> 'w \<Rightarrow> string \<Rightarrow> string list \<Rightarrow>
   exn + (string \<times> 'sim) list \<times> (string \<times> gotm_data) list" where
  "load_cell ext w dir cs = load_loop ext w dir cs ([], [])"

subsection \<open>The predicted mixed layer depth (cell 5)\<close>







text \<open>The scaling law of Price (1979) as the notebook's first cell states it:
  \<open>h\<^sub>m(t) = (2 R\<^sub>v)\<^bsup>1/4\<^esup> u\<^sub>* (t / N\<^sub>0)\<^bsup>1/2\<^esup>\<close> with \<open>R\<^sub>v = 0.6\<close>.\<close>

definition price79 :: "real \<Rightarrow> real \<Rightarrow> real \<Rightarrow> real" where
  "price79 ustar N0 t = (2 * 0.6) powr (1 / 4) * ustar * sqrt (t / N0)"

subsection \<open>The figure (cell 6)\<close>



text \<open>The lookups \<^verbatim>\<open>colors[case]\<close>, \<^verbatim>\<open>markers[case]\<close> and \<^verbatim>\<open>labels[case]\<close> of the
  \<^verbatim>\<open>plt.scatter\<close> call in the figure loop, in the order Python evaluates them.\<close>

definition scatter_style :: "plot_vars \<Rightarrow> string \<Rightarrow> exn + (color \<times> string \<times> string)" where
  "scatter_style st c =
     and_then (getitem_dict (colors st) c) (\<lambda>col.
     and_then (getitem_dict (markers st) c) (\<lambda>mk.
     and_then (getitem_dict (labels_plot st) c) (\<lambda>lab. Inr (col, mk, lab))))"





subsection \<open>The notebook, run from the top\<close>


section \<open>Notions used in the statements\<close>

subsection \<open>Reachable objects and the value a reference denotes\<close>

definition refs :: "obj \<Rightarrow> addr set" where
  "refs x = {a. VRef a \<in> set (children x)}"

text \<open>A set of addresses is closed when its objects exist and refer to it only.\<close>

definition closed :: "heap \<Rightarrow> addr set \<Rightarrow> bool" where
  "closed h S \<longleftrightarrow> (\<forall>a \<in> S. a < length h \<and> refs (h ! a) \<subseteq> S)"

fun valid :: "nat \<Rightarrow> val \<Rightarrow> bool" where
  "valid n (VRef a) = (a < n)"
| "valid n _ = True"

text \<open>A store is well formed when no object holds a dangling reference, as in every
  Python program.\<close>

definition wf_heap :: "heap \<Rightarrow> bool" where
  "wf_heap h = list_all (\<lambda>x. list_all (valid (length h)) (children x)) h"

inductive_set reach :: "heap \<Rightarrow> val \<Rightarrow> addr set" for h :: heap and v :: val where
  root: "v = VRef a \<Longrightarrow> a \<in> reach h v"
| step: "a \<in> reach h v \<Longrightarrow> a < length h \<Longrightarrow> b \<in> refs (h ! a) \<Longrightarrow> b \<in> reach h v"

text \<open>The nested value a Python value denotes in a store, unfolded to a given depth:
  what \<^verbatim>\<open>print\<close> would show of it, cut off below that depth.\<close>

datatype pyval =
    PStr string | PFloat rat | PInt int | PBool bool
  | PDict "(key \<times> pyval) list" | PList "pyval list"
  | PCut | PDangling

primrec snapshot :: "nat \<Rightarrow> heap \<Rightarrow> val \<Rightarrow> pyval" where
  "snapshot 0 h v =
     (case v of VStr s \<Rightarrow> PStr s | VFloat x \<Rightarrow> PFloat x | VInt i \<Rightarrow> PInt i
              | VBool b \<Rightarrow> PBool b | VRef a \<Rightarrow> PCut)"
| "snapshot (Suc n) h v =
     (case v of VStr s \<Rightarrow> PStr s | VFloat x \<Rightarrow> PFloat x | VInt i \<Rightarrow> PInt i
              | VBool b \<Rightarrow> PBool b
              | VRef a \<Rightarrow>
                  if a < length h then
                    (case h ! a of
                       Dict d \<Rightarrow> PDict (map (\<lambda>(k, w). (k, snapshot n h w)) d)
                     | PyList vs \<Rightarrow> PList (map (snapshot n h) vs))
                  else PDangling)"

subsection \<open>Batch entries that share nothing\<close>

text \<open>\<open>separate s\<close>: the store is well formed, and no object is reachable from two of
  \<^verbatim>\<open>cfg\<close>, \<^verbatim>\<open>cfgs[0]\<close>, \<^verbatim>\<open>cfgs[1]\<close>, ...\<close>

definition separate :: "'r nb_state \<Rightarrow> bool" where
  "separate s \<longleftrightarrow>
     wf_heap (heap s) \<and> valid (length (heap s)) (cfg s) \<and>
     (\<forall>e \<in> set (cfgs s). valid (length (heap s)) e \<and>
        reach (heap s) e \<inter> reach (heap s) (cfg s) = {}) \<and>
     (\<forall>i < length (cfgs s). \<forall>j < length (cfgs s). i \<noteq> j \<longrightarrow>
        reach (heap s) (cfgs s ! i) \<inter> reach (heap s) (cfgs s ! j) = {})"

text \<open>\<open>keeps s s'\<close>: the entries of \<^verbatim>\<open>cfgs\<close> in \<open>s\<close> are still there in \<open>s'\<close>, and
  every object they reach has the contents it had.\<close>

definition keeps :: "'r nb_state \<Rightarrow> 'r nb_state \<Rightarrow> bool" where
  "keeps s s' \<longleftrightarrow>
     take (length (cfgs s)) (cfgs s') = cfgs s \<and> length (cfgs s) \<le> length (cfgs s') \<and>
     (\<forall>e \<in> set (cfgs s). \<forall>a \<in> reach (heap s) e.
        a < length (heap s) \<longrightarrow> a < length (heap s') \<and> heap s' ! a = heap s ! a)"

subsection \<open>Bookkeeping for the proofs about deepcopy and allocation\<close>

text \<open>\<open>fresh_from L s\<close>: every object at an address from \<open>L\<close> on, and every image in the
  memo, lies in the part of the store allocated from \<open>L\<close> on.\<close>

definition fresh_from :: "nat \<Rightarrow> heap \<times> memo \<Rightarrow> bool" where
  "fresh_from L s \<longleftrightarrow>
     L \<le> length (fst s) \<and>
     (\<forall>(a, b) \<in> set (snd s). L \<le> b \<and> b < length (fst s)) \<and>
     (\<forall>b. L \<le> b \<and> b < length (fst s) \<longrightarrow> refs (fst s ! b) \<subseteq> {L..<length (fst s)})"

definition extends :: "heap \<Rightarrow> heap \<Rightarrow> bool" where
  "extends h h' \<longleftrightarrow> length h \<le> length h' \<and> take (length h) h' = h"

definition fresh_val :: "nat \<Rightarrow> heap \<Rightarrow> val \<Rightarrow> bool" where
  "fresh_val L h v \<longleftrightarrow> (\<forall>b. v = VRef b \<longrightarrow> L \<le> b \<and> b < length h)"

text \<open>\<open>new_part h h'\<close>: \<open>h'\<close> is \<open>h\<close> followed by objects that refer to each other only.\<close>

definition new_part :: "heap \<Rightarrow> heap \<Rightarrow> bool" where
  "new_part h h' \<longleftrightarrow>
     extends h h' \<and>
     (\<forall>b. length h \<le> b \<and> b < length h' \<longrightarrow> refs (h' ! b) \<subseteq> {length h..<length h'})"

text \<open>\<open>old_part N s\<close>: the first \<open>N\<close> objects, the ones being copied, refer to each
  other only, and the memo's keys are among them; \<open>todo N s\<close> counts those not yet in
  the memo.\<close>

definition old_part :: "nat \<Rightarrow> heap \<times> memo \<Rightarrow> bool" where
  "old_part N s \<longleftrightarrow>
     N \<le> length (fst s) \<and>
     (\<forall>a < N. refs (fst s ! a) \<subseteq> {..<N}) \<and>
     fst ` set (snd s) \<subseteq> {..<N}"

definition todo :: "nat \<Rightarrow> heap \<times> memo \<Rightarrow> nat" where
  "todo N s = card ({..<N} - fst ` set (snd s))"

definition grows :: "nat \<Rightarrow> heap \<times> memo \<Rightarrow> heap \<times> memo \<Rightarrow> bool" where
  "grows N s s' \<longleftrightarrow>
     old_part N s' \<and> fst ` set (snd s) \<subseteq> fst ` set (snd s') \<and>
     take N (fst s') = take N (fst s)"

subsection \<open>Kinds of statements\<close>

fun scalar_lit :: "expr \<Rightarrow> bool" where
  "scalar_lit EmptyDict = False"
| "scalar_lit (ListLit es) = False"
| "scalar_lit _ = True"

fun is_assign :: "stmt \<Rightarrow> bool" where
  "is_assign (Assign path k e) = True"
| "is_assign _ = False"

fun no_alloc :: "stmt \<Rightarrow> bool" where
  "no_alloc (Assign path k e) = scalar_lit e"
| "no_alloc (RunBatch n) = False"
| "no_alloc _ = True"

text \<open>The labels a program appends, the number of configurations it appends, and
  the calls of \<^verbatim>\<open>run_batch\<close> it makes.\<close>

fun label_of :: "stmt \<Rightarrow> string list" where
  "label_of (AppendLabel l) = [l]"
| "label_of _ = []"

fun copies_of :: "stmt \<Rightarrow> nat" where
  "copies_of AppendCfg = 1"
| "copies_of _ = 0"

fun is_run_batch :: "stmt \<Rightarrow> bool" where
  "is_run_batch (RunBatch n) = True"
| "is_run_batch _ = False"

definition appended_labels :: "stmt list \<Rightarrow> string list" where
  "appended_labels prog = concat (map label_of prog)"

definition appended_cfgs :: "stmt list \<Rightarrow> nat" where
  "appended_cfgs prog = sum_list (map copies_of prog)"

text \<open>A program appends in lockstep when every \<^verbatim>\<open>cfgs.append\<close> is followed at once
  by a \<^verbatim>\<open>labels.append\<close>, every \<^verbatim>\<open>labels.append\<close> follows one, and nothing else
  happens but assignments to fields of \<^verbatim>\<open>cfg\<close>.\<close>

fun lockstep :: "stmt list \<Rightarrow> bool" where
  "lockstep [] = True"
| "lockstep (AppendCfg # AppendLabel l # prog) = lockstep prog"
| "lockstep (Assign path k e # prog) = lockstep prog"
| "lockstep (st # prog) = False"

subsection \<open>Plot styles and loaded datasets\<close>

definition keys_ok :: "plot_vars \<Rightarrow> bool" where
  "keys_ok st \<longleftrightarrow>
     fst ` set (labels_plot st) = set (casenames st) \<and>
     fst ` set (colors st) = set (casenames st) \<and>
     fst ` set (markers st) = set (casenames st)"

definition loaded_from ::
  "('w, 'sim) plot_ext \<Rightarrow> 'w \<Rightarrow> string \<Rightarrow> (string \<times> gotm_data) list \<Rightarrow> string \<Rightarrow> bool" where
  "loaded_from ext w dir dataset c \<longleftrightarrow>
     (\<exists>sim d. Simulation ext (dir @ ''/'' @ c) = Inr sim \<and>
              load_data ext w sim = Inr d \<and> map_of dataset c = Some d)"

section \<open>Concrete collaborators, for the examples\<close>

text \<open>A default configuration with the sections the notebooks update, as a store of
  31 dicts with the root at address 0, and collaborators that return it.\<close>

definition default_config :: heap where
  "default_config =
     [Dict [(K ''title'', VStr ''GOTM simulation''), (K ''location'', VRef 1), (K ''time'', VRef 2), (K ''grid'', VRef 3), (K ''temperature'', VRef 4), (K ''salinity'', VRef 6), (K ''surface'', VRef 7), (K ''waves'', VRef 12), (K ''eq_state'', VRef 22), (K ''turbulence'', VRef 23), (K ''cvmix'', VRef 28)],
      Dict [(K ''name'', VStr ''GOTM site''), (K ''latitude'', VFloat 0), (K ''longitude'', VFloat 0), (K ''depth'', VFloat 100)],
      Dict [(K ''start'', VStr ''2017-01-01 00:00:00''), (K ''stop'', VStr ''2018-01-01 00:00:00''), (K ''dt'', VFloat 3600)],
      Dict [(K ''nlev'', VInt 100)],
      Dict [(K ''method'', VStr ''off''), (K ''two_layer'', VRef 5), (K ''NN'', VFloat 0)],
      Dict [(K ''t_s'', VFloat 0)],
      Dict [(K ''method'', VStr ''off''), (K ''constant_value'', VFloat 35)],
      Dict [(K ''fluxes'', VRef 8)],
      Dict [(K ''method'', VStr ''off''), (K ''heat'', VRef 9), (K ''tx'', VRef 10), (K ''ty'', VRef 11)],
      Dict [(K ''method'', VStr ''off''), (K ''constant_value'', VFloat 0)],
      Dict [(K ''method'', VStr ''off''), (K ''constant_value'', VFloat 0)],
      Dict [(K ''method'', VStr ''off''), (K ''constant_value'', VFloat 0)],
      Dict [(K ''stokes_drift'', VRef 13)],
      Dict [(K ''us'', VRef 14), (K ''vs'', VRef 15), (K ''dusdz'', VRef 16), (K ''dvsdz'', VRef 17), (K ''exponential'', VRef 18)],
      Dict [(K ''method'', VStr ''off'')],
      Dict [(K ''method'', VStr ''off'')],
      Dict [(K ''method'', VStr ''off'')],
      Dict [(K ''method'', VStr ''off'')],
      Dict [(K ''us0'', VRef 19), (K ''vs0'', VRef 20), (K ''ds'', VRef 21)],
      Dict [(K ''method'', VStr ''constant''), (K ''constant_value'', VFloat 0)],
      Dict [(K ''method'', VStr ''constant''), (K ''constant_value'', VFloat 0)],
      Dict [(K ''method'', VStr ''constant''), (K ''constant_value'', VFloat 5)],
      Dict [(K ''method'', VStr ''jackett''), (K ''form'', VStr ''full'')],
      Dict [(K ''turb_method'', VStr ''second_order''), (K ''tke_method'', VStr ''tke''), (K ''len_scale_method'', VStr ''dissipation''), (K ''scnd'', VRef 24), (K ''turb_param'', VRef 25), (K ''generic'', VRef 26), (K ''my'', VRef 27)],
      Dict [(K ''method'', VStr ''weak_eq_kb_eq''), (K ''scnd_coeff'', VStr ''canuto-a'')],
      Dict [(K ''length_lim'', VStr ''true''), (K ''compute_c3'', VStr ''true''), (K ''Ri_st'', VFloat (1 / 4))],
      Dict [(K ''gen_m'', VFloat (3 / 2))],
      Dict [(K ''e6'', VFloat 4)],
      Dict [(K ''surface_layer'', VRef 29)],
      Dict [(K ''kpp'', VRef 30)],
      Dict [(K ''langmuir_method'', VStr ''none'')]]"

definition gotmtool_stub :: "(string, nat) run_ext" where
  "gotmtool_stub =
     \<lparr> Model = (\<lambda>name env. Inr name),
       environ = (\<lambda>m. [(''gotmdir_run'', ''/gotm/run'')]),
       build = (\<lambda>m. Inr ()),
       init_config = (\<lambda>m. Inr (VRef 0, default_config)),
       run_batch = (\<lambda>m h cs ls nproc. Inr (length cs)) \<rparr>"


text \<open>Collaborators of the plot notebook: every path is a link already, a simulation
  is its path, and every run has written three output times, a quarter of an hour
  apart from 2005-01-01 on, and two levels; the last time depends on the path.\<close>

definition sample_data :: "string \<Rightarrow> gotm_data" where
  "sample_data path =
     \<lparr> NN = [[[[Fin 0]], [[Fin 0]]], [[[Fin 0]], [[Fin 0]]], [[[Fin 0]], [[Fin (1 / 16384)]]]],
       u_taus = [[[Fin 0]], [[Fin (1 / 256)]], [[Fin (1 / 128)]]],
       time = [1104537600000000000, 1104538500000000000,
               1104539400000000000 + int (length path)] \<rparr>"

definition plot_stub :: "(unit, string) plot_ext" where
  "plot_stub =
     \<lparr> os_path_islink = (\<lambda>w p. True),
       os_symlink = (\<lambda>w src dst. Inr w),
       Simulation = (\<lambda>path. Inr path),
       load_data = (\<lambda>w sim. Inr (sample_data sim)),
       get_bld_maxNN = (\<lambda>nn. Inr (map (\<lambda>column. Fin 0) nn)) \<rparr>"


section \<open>Basic facts\<close>

lemma and_then_Inr_simp [simp]: "and_then (Inr x) f = f x"
  by (simp add: and_then_def)

lemma and_then_Inl_simp [simp]: "and_then (Inl e) f = Inl e"
  by (simp add: and_then_def)

lemma and_then_weak_cong [cong]: "r = r' \<Longrightarrow> and_then r f = and_then r' f"
  by simp

lemma and_then_Inr: "and_then r f = Inr y \<longleftrightarrow> (\<exists>x. r = Inr x \<and> f x = Inr y)"
  by (cases r) simp_all

subsection \<open>Heaps, closed sets and reachability\<close>

lemma refs_with_children: "refs (with_children x vs) \<subseteq> {a. VRef a \<in> set vs}"
proof (cases x)
  case (Dict d)
  have "set (map snd (zip (map fst d) vs)) \<subseteq> set vs"
    by (auto dest: set_zip_rightD)
  with Dict show ?thesis
    by (auto simp: refs_def)
next
  case (PyList ws)
  then show ?thesis
    by (simp add: refs_def)
qed

lemma refs_with_children_Nil [simp]: "refs (with_children x []) = {}"
  using refs_with_children [of x "[]"] by simp

lemma valid_iff: "valid n v \<longleftrightarrow> (\<forall>a. v = VRef a \<longrightarrow> a < n)"
  by (cases v) simp_all

lemma wf_heap_closed: "wf_heap h \<longleftrightarrow> closed h {..<length h}"
proof
  assume w: "wf_heap h"
  show "closed h {..<length h}"
    unfolding closed_def
  proof (intro ballI conjI)
    fix a assume "a \<in> {..<length h}"
    then show a: "a < length h" by simp
    with w have "list_all (valid (length h)) (children (h ! a))"
      by (simp add: wf_heap_def list_all_length)
    then show "refs (h ! a) \<subseteq> {..<length h}"
      by (auto simp: refs_def list_all_iff valid_iff)
  qed
next
  assume c: "closed h {..<length h}"
  show "wf_heap h"
    unfolding wf_heap_def list_all_length
  proof (intro allI impI)
    fix a i assume a: "a < length h" and i: "i < length (children (h ! a))"
    from c a have r: "refs (h ! a) \<subseteq> {..<length h}"
      by (simp add: closed_def)
    show "valid (length h) (children (h ! a) ! i)"
    proof (cases "children (h ! a) ! i")
      case (VRef b)
      with i have "b \<in> refs (h ! a)"
        by (auto simp: refs_def in_set_conv_nth)
      with r VRef show ?thesis by auto
    qed simp_all
  qed
qed

lemma reach_subset_closed:
  assumes "closed h S" and "\<And>a. v = VRef a \<Longrightarrow> a \<in> S"
  shows "reach h v \<subseteq> S"
proof
  fix a assume "a \<in> reach h v"
  then show "a \<in> S"
  proof induction
    case (root a)
    then show ?case by (rule assms(2))
  next
    case (step a b)
    with assms(1) show ?case
      by (auto simp: closed_def)
  qed
qed

lemma reach_is_ref: "a \<in> reach h v \<Longrightarrow> \<exists>r. v = VRef r"
  by (induction rule: reach.induct) simp_all

lemma reach_scalar [simp]:
  "reach h (VStr s) = {}" "reach h (VFloat x) = {}" "reach h (VInt i) = {}" "reach h (VBool b) = {}"
  using reach_is_ref by fastforce+

lemma reach_bounded:
  assumes "wf_heap h" and "valid (length h) v"
  shows "reach h v \<subseteq> {..<length h}"
  using assms by (intro reach_subset_closed) (auto simp: wf_heap_closed valid_iff)

lemma closed_reach:
  assumes "wf_heap h" and "valid (length h) v"
  shows "closed h (reach h v)"
  unfolding closed_def
proof (intro ballI conjI subsetI)
  fix a assume a: "a \<in> reach h v"
  with reach_bounded [OF assms] show l: "a < length h" by auto
  fix b assume "b \<in> refs (h ! a)"
  with a l show "b \<in> reach h v" by (rule reach.step)
qed

text \<open>Two heaps that agree on a closed set give the same reachable sets from inside it.\<close>

lemma closed_agree:
  assumes "closed h S" and "\<And>a. a \<in> S \<Longrightarrow> a < length h' \<and> h' ! a = h ! a"
  shows "closed h' S"
  using assms unfolding closed_def by auto

lemma reach_agree:
  assumes c: "closed h S" and ag: "\<And>a. a \<in> S \<Longrightarrow> a < length h' \<and> h' ! a = h ! a"
    and v: "\<And>a. v = VRef a \<Longrightarrow> a \<in> S"
  shows "reach h' v = reach h v"
proof (intro equalityI subsetI)
  have c': "closed h' S" using c ag by (rule closed_agree)
  fix a assume "a \<in> reach h' v"
  then show "a \<in> reach h v"
  proof induction
    case (root a) then show ?case by (rule reach.root)
  next
    case (step a b)
    from step.IH reach_subset_closed [OF c v] have aS: "a \<in> S" by auto
    with c have "a < length h" by (simp add: closed_def)
    moreover from aS ag step.hyps(3) have "b \<in> refs (h ! a)" by simp
    ultimately show ?case using step.IH by (rule reach.step [rotated])
  qed
next
  have c': "closed h' S" using c ag by (rule closed_agree)
  fix a assume "a \<in> reach h v"
  then show "a \<in> reach h' v"
  proof induction
    case (root a) then show ?case by (rule reach.root)
  next
    case (step a b)
    from step.hyps(1) reach_subset_closed [OF c v] have aS: "a \<in> S" by auto
    with ag have "a < length h'" "h' ! a = h ! a" by simp_all
    with step.hyps(3) have "b \<in> refs (h' ! a)" by simp
    with step.IH \<open>a < length h'\<close> show ?case by (rule reach.step)
  qed
qed

subsection \<open>What a deep copy allocates\<close>


lemma extends_refl [simp]: "extends h h"
  by (simp add: extends_def)

lemma extends_trans:
  assumes "extends h1 h2" and "extends h2 h3"
  shows "extends h1 h3"
proof -
  from assms have l: "length h1 \<le> length h2" "length h2 \<le> length h3"
    and t: "take (length h1) h2 = h1" "take (length h2) h3 = h2"
    by (simp_all add: extends_def)
  from l have "take (length h1) h3 = take (length h1) (take (length h2) h3)"
    by (simp add: min_def)
  with t have "take (length h1) h3 = h1"
    by simp
  with l show ?thesis
    by (simp add: extends_def)
qed

lemma extends_append [simp]: "extends h (h @ xs)"
  by (simp add: extends_def)

lemma extends_nth:
  assumes "extends h h'" and "a < length h"
  shows "h' ! a = h ! a"
proof -
  from assms(1) have "h ! a = take (length h) h' ! a"
    by (simp add: extends_def)
  with assms(2) show ?thesis
    by simp
qed

lemma extends_length: "extends h h' \<Longrightarrow> length h \<le> length h'"
  by (simp add: extends_def)

lemma extends_update: "extends h h' \<Longrightarrow> length h \<le> b \<Longrightarrow> extends h (h'[b := x])"
  by (simp add: extends_def)

lemma fresh_val_mono: "fresh_val L h v \<Longrightarrow> length h \<le> length h' \<Longrightarrow> fresh_val L h' v"
  by (auto simp: fresh_val_def)

lemma fold_copy_fresh:
  assumes ih: "\<And>s v s' v'. deepcopy_rec n s v = Some (s', v') \<Longrightarrow> fresh_from L s \<Longrightarrow>
                 fresh_from L s' \<and> extends (fst s) (fst s') \<and> fresh_val L (fst s') v'"
    and "fold_copy (deepcopy_rec n) s vs = Some (s', vs')" and "fresh_from L s"
  shows "fresh_from L s' \<and> extends (fst s) (fst s') \<and> (\<forall>v' \<in> set vs'. fresh_val L (fst s') v')"
  using assms(2,3)
proof (induction vs arbitrary: s vs')
  case Nil
  then show ?case by simp
next
  case (Cons v vs)
  from Cons.prems(1) obtain s1 v1 ws where
    1: "deepcopy_rec n s v = Some (s1, v1)" and
    2: "fold_copy (deepcopy_rec n) s1 vs = Some (s', ws)" and
    3: "vs' = v1 # ws"
    by (auto split: option.splits prod.splits)
  from ih [OF 1 Cons.prems(2)] have
    f1: "fresh_from L s1" and e1: "extends (fst s) (fst s1)" and v1: "fresh_val L (fst s1) v1"
    by simp_all
  from Cons.IH [OF 2 f1] have
    f2: "fresh_from L s'" and e2: "extends (fst s1) (fst s')" and
    ws: "\<forall>v' \<in> set ws. fresh_val L (fst s') v'"
    by simp_all
  from v1 e2 have "fresh_val L (fst s') v1"
    by (auto intro: fresh_val_mono simp: extends_def)
  with f2 e1 e2 ws 3 show ?case
    by (auto intro: extends_trans)
qed

lemma deepcopy_rec_fresh:
  assumes "deepcopy_rec n s v = Some (s', v')" and "fresh_from L s"
  shows "fresh_from L s' \<and> extends (fst s) (fst s') \<and>
         (case v of VRef _ \<Rightarrow> fresh_val L (fst s') v' | _ \<Rightarrow> v' = v)"
  using assms
proof (induction n arbitrary: s v s' v')
  case 0
  then show ?case by simp
next
  case (Suc n)
  show ?case
  proof (cases v)
    case (VRef a)
    show ?thesis
    proof (cases "map_of (snd s) a")
      case (Some b)
      with Suc.prems VRef have eq: "s' = s" "v' = VRef b"
        by simp_all
      from Some have "(a, b) \<in> set (snd s)"
        by (rule map_of_SomeD)
      with Suc.prems(2) have "L \<le> b \<and> b < length (fst s)"
        by (auto simp: fresh_from_def)
      with eq Suc.prems(2) VRef show ?thesis
        by (simp add: fresh_val_def)
    next
      case None
      define h where "h = fst s"
      define m where "m = snd s"
      define x where "x = h ! a"
      define b where "b = length h"
      define s1 where "s1 = (h @ [with_children x []], (a, b) # m)"
      from Suc.prems(1) VRef None obtain h2 m2 vs where
        a: "a < length h" and
        fc: "fold_copy (deepcopy_rec n) s1 (children x) = Some ((h2, m2), vs)" and
        s': "s' = (h2[b := with_children x vs], m2)" and v': "v' = VRef b"
        unfolding h_def m_def x_def b_def s1_def
        by (auto simp: Let_def split: if_splits option.splits prod.splits)
      from Suc.prems(2) have L: "L \<le> length h" and
        mm: "\<forall>(a, b) \<in> set m. L \<le> b \<and> b < length h" and
        rr: "\<forall>b. L \<le> b \<and> b < length h \<longrightarrow> refs (h ! b) \<subseteq> {L..<length h}"
        by (simp_all add: fresh_from_def h_def m_def)
      have r1: "refs ((h @ [with_children x []]) ! c) \<subseteq> {L..<Suc (length h)}"
        if "L \<le> c" "c < Suc (length h)" for c
      proof (cases "c < length h")
        case True
        with that rr have "refs (h ! c) \<subseteq> {L..<length h}" by simp
        with True show ?thesis by (auto simp: nth_append)
      next
        case False
        with that have "c = length h" by simp
        then show ?thesis by simp
      qed
      have m1: "L \<le> d \<and> d < Suc (length h)" if "(c, d) \<in> set ((a, b) # m)" for c d
        using that mm L by (auto simp: b_def)
      have f1: "fresh_from L s1"
        unfolding fresh_from_def s1_def using L r1 m1 by auto
      have ih: "\<And>s v s' v'. deepcopy_rec n s v = Some (s', v') \<Longrightarrow> fresh_from L s \<Longrightarrow>
                 fresh_from L s' \<and> extends (fst s) (fst s') \<and> fresh_val L (fst s') v'"
      proof -
        fix s v s' v'
        assume "deepcopy_rec n s v = Some (s', v')" "fresh_from L s"
        from Suc.IH [OF this] show
          "fresh_from L s' \<and> extends (fst s) (fst s') \<and> fresh_val L (fst s') v'"
          by (cases v) (auto simp: fresh_val_def)
      qed
      from fold_copy_fresh [OF ih fc f1] have
        f2: "fresh_from L (h2, m2)" and e2: "extends (h @ [with_children x []]) h2" and
        vs: "\<forall>v' \<in> set vs. fresh_val L h2 v'"
        by (simp_all add: s1_def)
      from e2 have len: "length h < length h2"
        by (auto dest: extends_length)
      from e2 have e: "extends h h2"
        using extends_trans extends_append by blast
      have "refs (with_children x vs) \<subseteq> {L..<length h2}"
        using refs_with_children [of x vs] vs by (auto simp: fresh_val_def)
      with f2 len L have "fresh_from L (h2[b := with_children x vs], m2)"
        unfolding fresh_from_def by (auto simp: nth_list_update b_def)
      moreover from e have "extends h (h2[b := with_children x vs])"
        by (rule extends_update) (simp add: b_def)
      moreover from L len have "fresh_val L (h2[b := with_children x vs]) (VRef b)"
        by (simp add: fresh_val_def b_def)
      ultimately show ?thesis
        using VRef s' v' by (simp add: h_def)
    qed
  qed (use Suc.prems in auto)
qed

subsection \<open>A deep copy of a well-formed heap always returns\<close>


lemma todo_mono:
  assumes "fst ` set (snd s) \<subseteq> fst ` set (snd s')"
  shows "todo N s' \<le> todo N s"
  unfolding todo_def using assms by (intro card_mono) auto

lemma grows_refl: "old_part N s \<Longrightarrow> grows N s s"
  by (simp add: grows_def)

lemma grows_trans: "grows N s1 s2 \<Longrightarrow> grows N s2 s3 \<Longrightarrow> grows N s1 s3"
  unfolding grows_def by auto

lemma fold_copy_total:
  assumes ih: "\<And>s v. old_part N s \<Longrightarrow> valid N v \<Longrightarrow> todo N s < n \<Longrightarrow>
                 \<exists>s' v'. deepcopy_rec n s v = Some (s', v') \<and> grows N s s'"
    and "old_part N s" and "\<forall>v \<in> set vs. valid N v" and "todo N s < n"
  shows "\<exists>s' vs'. fold_copy (deepcopy_rec n) s vs = Some (s', vs') \<and> grows N s s'"
  using assms(2-)
proof (induction vs arbitrary: s)
  case Nil
  then show ?case by (simp add: grows_refl)
next
  case (Cons v vs)
  from Cons.prems have "valid N v" by simp
  from ih [OF Cons.prems(1) this Cons.prems(3)] obtain s1 v1 where
    1: "deepcopy_rec n s v = Some (s1, v1)" and g1: "grows N s s1"
    by blast
  from g1 have o1: "old_part N s1" and "fst ` set (snd s) \<subseteq> fst ` set (snd s1)"
    by (simp_all add: grows_def)
  then have "todo N s1 \<le> todo N s"
    by (intro todo_mono)
  with Cons.prems(3) have t1: "todo N s1 < n" by simp
  from Cons.prems(2) have "\<forall>v \<in> set vs. valid N v" by simp
  from Cons.IH [OF o1 this t1] obtain s' vs' where
    2: "fold_copy (deepcopy_rec n) s1 vs = Some (s', vs')" and g2: "grows N s1 s'"
    by blast
  from 1 2 have "fold_copy (deepcopy_rec n) s (v # vs) = Some (s', v1 # vs')"
    by simp
  with grows_trans [OF g1 g2] show ?case
    by blast
qed

lemma deepcopy_rec_total:
  assumes "old_part N s" and "valid N v" and "todo N s < n"
  shows "\<exists>s' v'. deepcopy_rec n s v = Some (s', v') \<and> grows N s s'"
  using assms
proof (induction n arbitrary: s v)
  case 0
  then show ?case by simp
next
  case (Suc n)
  show ?case
  proof (cases v)
    case (VRef a)
    with Suc.prems(2) have aN: "a < N" by simp
    show ?thesis
    proof (cases "map_of (snd s) a")
      case (Some b)
      with VRef Suc.prems(1) show ?thesis
        by (simp add: grows_refl)
    next
      case None
      define h where "h = fst s"
      define m where "m = snd s"
      define x where "x = h ! a"
      define b where "b = length h"
      define s1 where "s1 = (h @ [with_children x []], (a, b) # m)"
      from Suc.prems(1) have N: "N \<le> length h" and
        rr: "\<forall>a < N. refs (h ! a) \<subseteq> {..<N}" and mm: "fst ` set m \<subseteq> {..<N}"
        by (simp_all add: old_part_def h_def m_def)
      from aN N have ah: "a < length h" by simp
      have o1: "old_part N s1"
        unfolding old_part_def s1_def using N rr mm aN by (auto simp: nth_append)
      from None have "a \<notin> fst ` set m"
        by (simp add: m_def map_of_eq_None_iff)
      with aN have ain: "a \<in> {..<N} - fst ` set m" by simp
      have fin: "finite ({..<N} - fst ` set m)" by simp
      have "{..<N} - fst ` set (snd s1) = ({..<N} - fst ` set m) - {a}"
        by (auto simp: s1_def)
      then have "todo N s1 = card (({..<N} - fst ` set m) - {a})"
        by (simp add: todo_def)
      also from fin ain have "\<dots> < card ({..<N} - fst ` set m)"
        by (rule card_Diff1_less)
      finally have "todo N s1 < todo N s"
        by (simp add: todo_def m_def)
      with Suc.prems(3) have t1: "todo N s1 < n" by simp
      from rr aN have "refs x \<subseteq> {..<N}" by (simp add: x_def)
      then have cv: "\<forall>v \<in> set (children x). valid N v"
        by (auto simp: refs_def valid_iff)
      have ih: "\<And>s v. old_part N s \<Longrightarrow> valid N v \<Longrightarrow> todo N s < n \<Longrightarrow>
                 \<exists>s' v'. deepcopy_rec n s v = Some (s', v') \<and> grows N s s'"
        by (rule Suc.IH)
      from fold_copy_total [OF ih o1 cv t1] obtain s2 vs where
        fc: "fold_copy (deepcopy_rec n) s1 (children x) = Some (s2, vs)" and g: "grows N s1 s2"
        by blast
      obtain h2 m2 where s2: "s2 = (h2, m2)" by (cases s2)
      define s' where "s' = (h2[b := with_children x vs], m2)"
      from fc s2 VRef None ah have r: "deepcopy_rec (Suc n) s v = Some (s', VRef b)"
        by (simp add: Let_def h_def [symmetric] m_def [symmetric] x_def [symmetric]
            b_def [symmetric] s1_def [symmetric] s'_def)
      from g s2 have o2: "old_part N (h2, m2)" and
        d2: "fst ` set (snd s1) \<subseteq> fst ` set m2" and
        t2: "take N h2 = take N (h @ [with_children x []])"
        by (simp_all add: grows_def s1_def)
      from N have nb: "N \<le> b" by (simp add: b_def)
      from o2 nb have "old_part N s'"
        unfolding old_part_def s'_def by (auto simp: nth_list_update)
      moreover from d2 have "fst ` set (snd s) \<subseteq> fst ` set (snd s')"
        by (auto simp: s1_def s'_def m_def)
      moreover from t2 N nb have "take N (fst s') = take N (fst s)"
        by (simp add: s'_def h_def)
      ultimately have "grows N s s'"
        by (simp add: grows_def)
      with r show ?thesis by blast
    qed
  qed (use Suc.prems in \<open>simp_all add: grows_refl\<close>)
qed

lemma wf_heap_old_part: "wf_heap h \<Longrightarrow> old_part (length h) (h, [])"
  by (simp add: wf_heap_closed closed_def old_part_def)

lemma deepcopy_total:
  assumes "wf_heap h" and "valid (length h) v"
  shows "\<exists>v' h'. deepcopy h v = Inr (v', h')"
proof -
  have "todo (length h) (h, []) < Suc (length h)"
    by (simp add: todo_def)
  from deepcopy_rec_total [OF wf_heap_old_part [OF assms(1)] assms(2) this]
  obtain s' v' where "deepcopy_rec (Suc (length h)) (h, []) v = Some (s', v')"
    by blast
  then show ?thesis
    by (cases s') (simp add: deepcopy_def)
qed

subsection \<open>Literals allocate fresh objects\<close>

lemma new_part_refl [simp]: "new_part h h"
  by (auto simp: new_part_def)

lemma new_part_trans:
  assumes "new_part h1 h2" and "new_part h2 h3"
  shows "new_part h1 h3"
  unfolding new_part_def
proof (intro conjI allI impI)
  from assms show "extends h1 h3"
    by (auto simp: new_part_def intro: extends_trans)
next
  fix b assume b: "length h1 \<le> b \<and> b < length h3"
  from assms have l: "length h1 \<le> length h2" "length h2 \<le> length h3"
    by (auto simp: new_part_def dest: extends_length)
  show "refs (h3 ! b) \<subseteq> {length h1..<length h3}"
  proof (cases "b < length h2")
    case True
    with assms(2) have "h3 ! b = h2 ! b"
      by (auto simp: new_part_def intro: extends_nth)
    moreover from assms(1) b True have "refs (h2 ! b) \<subseteq> {length h1..<length h2}"
      by (simp add: new_part_def)
    ultimately show ?thesis using l by auto
  next
    case False
    with assms(2) b have "refs (h3 ! b) \<subseteq> {length h2..<length h3}"
      by (simp add: new_part_def)
    with l show ?thesis by auto
  qed
qed

lemma new_part_snoc:
  assumes "refs x \<subseteq> {length h..<Suc (length h')}" and "new_part h h'"
  shows "new_part h (h' @ [x])"
  unfolding new_part_def
proof (intro conjI allI impI)
  from assms(2) have e: "extends h h'" by (simp add: new_part_def)
  from extends_trans [OF e extends_append] show "extends h (h' @ [x])" .
  fix b assume b: "length h \<le> b \<and> b < length (h' @ [x])"
  show "refs ((h' @ [x]) ! b) \<subseteq> {length h..<length (h' @ [x])}"
  proof (cases "b < length h'")
    case True
    with assms(2) b have "refs (h' ! b) \<subseteq> {length h..<length h'}"
      by (simp add: new_part_def)
    with True show ?thesis by (auto simp: nth_append)
  next
    case False
    with b have "b = length h'" by simp
    with assms(1) show ?thesis by simp
  qed
qed

lemma eval_expr_new_aux:
  "\<forall>v h'. eval_expr e h = (v, h') \<longrightarrow> new_part h h' \<and> fresh_val (length h) h' v"
  "\<forall>vs h'. eval_exprs es h = (vs, h') \<longrightarrow>
     new_part h h' \<and> (\<forall>v \<in> set vs. fresh_val (length h) h' v)"
proof (induction e h and es h rule: eval_expr_eval_exprs.induct)
  case (5 h)
  have "new_part h (h @ [Dict []])"
    by (rule new_part_snoc) (simp_all add: refs_def)
  then show ?case by (simp add: fresh_val_def)
next
  case (6 es h)
  show ?case
  proof (intro allI impI)
    fix v h' assume "eval_expr (ListLit es) h = (v, h')"
    then obtain vs h1 where
      ev: "eval_exprs es h = (vs, h1)" and h': "h' = h1 @ [PyList vs]" and
      v: "v = VRef (length h1)"
      by (auto split: prod.splits)
    from 6 ev have n1: "new_part h h1" and f: "\<forall>v \<in> set vs. fresh_val (length h) h1 v"
      by simp_all
    from f have "refs (PyList vs) \<subseteq> {length h..<Suc (length h1)}"
      by (auto simp: refs_def fresh_val_def)
    then have "new_part h (h1 @ [PyList vs])"
      using n1 by (rule new_part_snoc)
    moreover from n1 have "length h \<le> length h1"
      by (auto simp: new_part_def dest: extends_length)
    ultimately show "new_part h h' \<and> fresh_val (length h) h' v"
      by (simp add: h' v fresh_val_def)
  qed
next
  case (8 e es h)
  show ?case
  proof (intro allI impI)
    fix vs h' assume "eval_exprs (e # es) h = (vs, h')"
    then obtain v1 h1 ws where
      e1: "eval_expr e h = (v1, h1)" and e2: "eval_exprs es h1 = (ws, h')" and
      vs: "vs = v1 # ws"
      by (auto split: prod.splits)
    from "8.IH"(1) e1 have n1: "new_part h h1" and f1: "fresh_val (length h) h1 v1"
      by simp_all
    from "8.IH"(2) [OF e1 [symmetric]] e2 have n2: "new_part h1 h'" and
      f2: "\<forall>v \<in> set ws. fresh_val (length h1) h' v"
      by simp_all
    from n1 n2 have l: "length h \<le> length h1" "length h1 \<le> length h'"
      by (auto simp: new_part_def dest: extends_length)
    from f1 l have "fresh_val (length h) h' v1"
      by (auto simp: fresh_val_def)
    moreover from f2 l have "\<forall>v \<in> set ws. fresh_val (length h) h' v"
      by (auto simp: fresh_val_def)
    ultimately show "new_part h h' \<and> (\<forall>v \<in> set vs. fresh_val (length h) h' v)"
      using new_part_trans [OF n1 n2] vs by simp
  qed
qed (simp_all add: fresh_val_def)

lemma eval_expr_new:
  "eval_expr e h = (v, h') \<Longrightarrow> new_part h h' \<and> fresh_val (length h) h' v"
  using eval_expr_new_aux(1) by blast

subsection \<open>Subscripts stay inside the reachable part\<close>

lemma reach_trans:
  assumes "b \<in> reach h v"
  shows "reach h (VRef b) \<subseteq> reach h v"
proof
  fix a assume "a \<in> reach h (VRef b)"
  then show "a \<in> reach h v"
  proof induction
    case (root a)
    with assms show ?case by simp
  next
    case (step a c)
    from step.IH step.hyps(2,3) show ?case by (rule reach.step)
  qed
qed

lemma getitem_seq_in_set:
  assumes "getitem_seq xs i = Inr x"
  shows "x \<in> set xs"
proof (cases "0 \<le> i \<and> i < int (length xs)")
  case True
  with assms have "x = xs ! nat i" by (simp add: getitem_seq_def)
  moreover from True have "nat i < length xs" by linarith
  ultimately show ?thesis by simp
next
  case False
  with assms have n: "i < 0 \<and> - int (length xs) \<le> i" and
    x: "x = xs ! nat (int (length xs) + i)"
    by (auto simp: getitem_seq_def split: if_splits)
  from n have "nat (int (length xs) + i) < length xs" by linarith
  with x show ?thesis by simp
qed

lemma setitem_seq_subset:
  assumes "setitem_seq xs i v = Inr xs'"
  shows "set xs' \<subseteq> insert v (set xs)"
proof -
  from assms obtain j where "xs' = xs[j := v]"
    unfolding setitem_seq_def
    by (cases "0 \<le> i \<and> i < int (length xs)"; cases "i < 0 \<and> - int (length xs) \<le> i") auto
  then show ?thesis by (simp add: set_update_subset_insert)
qed

lemma getitem_ref:
  assumes "getitem h c k = Inr (VRef b)"
  shows "\<exists>a. c = VRef a \<and> a < length h \<and> b \<in> refs (h ! a)"
proof (cases c)
  case (VRef a)
  with assms have a: "a < length h"
    by (auto simp: getitem_def split: if_splits)
  show ?thesis
  proof (cases "h ! a")
    case (Dict d)
    with assms VRef a have "map_of d k = Some (VRef b)"
      by (auto simp: getitem_def split: option.splits)
    then have "(k, VRef b) \<in> set d"
      by (rule map_of_SomeD)
    then have "VRef b \<in> snd ` set d"
      by force
    with Dict VRef a show ?thesis
      by (simp add: refs_def)
  next
    case (PyList vs)
    with assms VRef a obtain i where "getitem_seq vs i = Inr (VRef b)"
      by (auto simp: getitem_def split: key.splits)
    then have "VRef b \<in> set vs"
      by (rule getitem_seq_in_set)
    with PyList VRef a show ?thesis
      by (simp add: refs_def)
  qed
next
  case (VStr s)
  with assms show ?thesis
    by (auto simp: getitem_def and_then_Inr split: key.splits)
qed (use assms in \<open>simp_all add: getitem_def\<close>)

lemma subscripts_reach:
  assumes "subscripts h c ks = Inr (VRef t)"
  shows "t \<in> reach h c"
  using assms
proof (induction ks arbitrary: c)
  case Nil
  then show ?case by (simp add: reach.root)
next
  case (Cons k ks)
  from Cons.prems obtain c' where g: "getitem h c k = Inr c'" and
    r: "subscripts h c' ks = Inr (VRef t)"
    by (auto simp: and_then_Inr)
  from Cons.IH [OF r] have t: "t \<in> reach h c'" .
  then obtain b where c': "c' = VRef b"
    using reach_is_ref by blast
  from getitem_ref [OF g [unfolded c']] obtain a where
    "c = VRef a" "a < length h" "b \<in> refs (h ! a)"
    by blast
  then have "b \<in> reach h c"
    by (auto intro: reach.intros)
  from reach_trans [OF this] t c' show ?case
    by auto
qed

lemma set_update_alist:
  "snd ` set (AList.update k v d) \<subseteq> insert v (snd ` set d)"
  by (induction d) auto

lemma setitem_effect:
  assumes "setitem h c k v = Inr h'"
  shows "\<exists>t x. c = VRef t \<and> t < length h \<and> h' = h[t := x] \<and>
               refs x \<subseteq> refs (h ! t) \<union> {b. v = VRef b}"
proof (cases c)
  case (VRef t)
  with assms have t: "t < length h"
    by (auto simp: setitem_def split: if_splits)
  show ?thesis
  proof (cases "h ! t")
    case (Dict d)
    with assms VRef t have h': "h' = h[t := Dict (setitem_dict d k v)]"
      by (simp add: setitem_def)
    have "refs (Dict (setitem_dict d k v)) \<subseteq> refs (Dict d) \<union> {b. v = VRef b}"
      using set_update_alist [of k v d] by (auto simp: refs_def setitem_dict_def)
    with VRef t h' Dict show ?thesis
      by auto
  next
    case (PyList vs)
    with assms VRef t obtain i vs' where
      s: "setitem_seq vs i v = Inr vs'" and h': "h' = h[t := PyList vs']"
      by (auto simp: setitem_def and_then_Inr split: key.splits)
    from s have "set vs' \<subseteq> insert v (set vs)"
      by (rule setitem_seq_subset)
    then have "refs (PyList vs') \<subseteq> refs (PyList vs) \<union> {b. v = VRef b}"
      by (auto simp: refs_def)
    with VRef t h' PyList show ?thesis
      by auto
  qed
qed (use assms in \<open>simp_all add: setitem_def\<close>)

subsection \<open>Old objects, new objects\<close>

lemma new_part_length: "new_part h h' \<Longrightarrow> length h \<le> length h'"
  by (auto simp: new_part_def dest: extends_length)

lemma new_part_nth: "new_part h h' \<Longrightarrow> a < length h \<Longrightarrow> h' ! a = h ! a"
  by (auto simp: new_part_def intro: extends_nth)

lemma wf_heap_new_part:
  assumes "wf_heap h" and "new_part h h'"
  shows "wf_heap h'"
  unfolding wf_heap_closed closed_def
proof (intro ballI conjI)
  fix a assume "a \<in> {..<length h'}"
  then show a: "a < length h'" by simp
  show "refs (h' ! a) \<subseteq> {..<length h'}"
  proof (cases "a < length h")
    case True
    with assms(1) have "refs (h ! a) \<subseteq> {..<length h}"
      by (simp add: wf_heap_closed closed_def)
    with new_part_nth [OF assms(2) True] new_part_length [OF assms(2)] show ?thesis
      by auto
  next
    case False
    with assms(2) a have "refs (h' ! a) \<subseteq> {length h..<length h'}"
      by (simp add: new_part_def)
    then show ?thesis by auto
  qed
qed

lemma reach_new_part:
  assumes "wf_heap h" and "valid (length h) r" and "new_part h h'"
  shows "reach h' r = reach h r"
proof (rule reach_agree [OF closed_reach [OF assms(1,2)]])
  fix a assume "a \<in> reach h r"
  with reach_bounded [OF assms(1,2)] have "a < length h" by auto
  with new_part_nth [OF assms(3)] new_part_length [OF assms(3)]
  show "a < length h' \<and> h' ! a = h ! a" by simp
next
  fix a assume "r = VRef a"
  then show "a \<in> reach h r" by (rule reach.root)
qed

lemma reach_fresh:
  assumes "new_part h h'" and "fresh_val (length h) h' v"
  shows "reach h' v \<subseteq> {length h..<length h'}"
proof (rule reach_subset_closed)
  from assms(1) show "closed h' {length h..<length h'}"
    by (simp add: closed_def new_part_def)
next
  fix a assume "v = VRef a"
  with assms(2) show "a \<in> {length h..<length h'}"
    by (simp add: fresh_val_def)
qed

lemma deepcopy_new_reach:
  assumes "deepcopy h c = Inr (v, h')"
  shows "new_part h h' \<and> reach h' v \<subseteq> {length h..<length h'} \<and> valid (length h') v"
proof -
  from assms obtain m where
    r: "deepcopy_rec (Suc (length h)) (h, []) c = Some ((h', m), v)"
    by (auto simp: deepcopy_def split: option.splits)
  have "fresh_from (length h) (h, [])"
    by (auto simp: fresh_from_def)
  from deepcopy_rec_fresh [OF r this] have
    f: "fresh_from (length h) (h', m)" and e: "extends h h'" and
    v: "case c of VRef _ \<Rightarrow> fresh_val (length h) h' v | _ \<Rightarrow> v = c"
    by (auto split: val.splits)
  from f e have np: "new_part h h'"
    by (simp add: new_part_def fresh_from_def)
  have "reach h' v \<subseteq> {length h..<length h'} \<and> valid (length h') v"
  proof (cases c)
    case (VRef a)
    with v have fv: "fresh_val (length h) h' v" by simp
    from reach_fresh [OF np fv] fv show ?thesis
      by (simp add: valid_iff fresh_val_def)
  qed (use v in simp_all)
  with np show ?thesis by simp
qed

subsection \<open>Every statement keeps the batch entries apart\<close>

lemma valid_mono: "valid n v \<Longrightarrow> n \<le> n' \<Longrightarrow> valid n' v"
  by (cases v) simp_all

lemma assign_separate:
  assumes sep: "separate s" and ex: "exec_stmt ext m (Assign path k e) s = Inr s'"
  shows "separate s' \<and> keeps s s'"
proof -
  define h where "h = heap s"
  define c where "c = cfg s"
  from ex obtain v h1 tv h2 where
    ev: "eval_expr e h = (v, h1)" and
    sub: "subscripts h1 c path = Inr tv" and
    st: "setitem h1 tv k v = Inr h2" and
    s': "s' = s\<lparr>heap := h2\<rparr>"
    by (auto simp: h_def c_def and_then_Inr split: prod.splits)
  from sep have wf: "wf_heap h" and vc: "valid (length h) c" and
    ents: "\<forall>e \<in> set (cfgs s). valid (length h) e \<and> reach h e \<inter> reach h c = {}" and
    pw: "\<forall>i < length (cfgs s). \<forall>j < length (cfgs s). i \<noteq> j \<longrightarrow>
           reach h (cfgs s ! i) \<inter> reach h (cfgs s ! j) = {}"
    by (simp_all add: separate_def h_def c_def)
  from eval_expr_new [OF ev] have np: "new_part h h1" and fv: "fresh_val (length h) h1 v"
    by simp_all
  note l1 = new_part_length [OF np]
  have wf1: "wf_heap h1" using wf np by (rule wf_heap_new_part)
  from setitem_effect [OF st] obtain t x where
    tv: "tv = VRef t" and t1: "t < length h1" and h2: "h2 = h1[t := x]" and
    rx: "refs x \<subseteq> refs (h1 ! t) \<union> {b. v = VRef b}"
    by blast
  have len2: "length h2 = length h1" by (simp add: h2)
  from subscripts_reach [OF sub [unfolded tv]] have "t \<in> reach h1 c" .
  with reach_new_part [OF wf vc np] have tc: "t \<in> reach h c" by simp
  with reach_bounded [OF wf vc] have t0: "t < length h" by auto
  have ht: "h1 ! t = h ! t" using np t0 by (rule new_part_nth)
  have cl_c: "closed h (reach h c)" using wf vc by (rule closed_reach)
  \<comment> \<open>objects outside the reach of cfg keep their contents\<close>
  have old: "a < length h2 \<and> h2 ! a = h ! a" if "a < length h" "a \<noteq> t" for a
    using that l1 new_part_nth [OF np that(1)] by (simp add: h2)
  have frame: "a < length h2 \<and> h2 ! a = h ! a"
    if r: "valid (length h) r" "reach h r \<inter> reach h c = {}" and a: "a \<in> reach h r" for r a
  proof -
    from reach_bounded [OF wf r(1)] a have "a < length h" by auto
    moreover from r(2) a tc have "a \<noteq> t" by auto
    ultimately show ?thesis by (rule old)
  qed
  have same: "reach h2 r = reach h r"
    if r: "valid (length h) r" "reach h r \<inter> reach h c = {}" for r
  proof (rule reach_agree [OF closed_reach [OF wf r(1)]])
    fix a assume "a \<in> reach h r"
    with r show "a < length h2 \<and> h2 ! a = h ! a" by (rule frame)
  next
    fix a assume "r = VRef a"
    then show "a \<in> reach h r" by (rule reach.root)
  qed
  \<comment> \<open>the heap stays well formed\<close>
  have wf2: "wf_heap h2"
    unfolding wf_heap_closed closed_def
  proof (intro ballI conjI)
    fix a assume "a \<in> {..<length h2}"
    then show a: "a < length h2" by simp
    show "refs (h2 ! a) \<subseteq> {..<length h2}"
    proof (cases "a = t")
      case True
      from wf1 t1 have "refs (h1 ! t) \<subseteq> {..<length h1}"
        by (simp add: wf_heap_closed closed_def)
      moreover from fv have "{b. v = VRef b} \<subseteq> {..<length h1}"
        by (auto simp: fresh_val_def)
      ultimately show ?thesis
        using rx True t1 by (auto simp: h2)
    next
      case False
      with a have "h2 ! a = h1 ! a" by (simp add: h2)
      moreover from wf1 a have "refs (h1 ! a) \<subseteq> {..<length h1}"
        by (simp add: wf_heap_closed closed_def len2)
      ultimately show ?thesis by (simp add: len2)
    qed
  qed
  \<comment> \<open>what cfg reaches afterwards is what it reached before, or new\<close>
  have rc: "reach h2 c \<subseteq> reach h c \<union> {length h..<length h1}"
  proof (rule reach_subset_closed)
    show "closed h2 (reach h c \<union> {length h..<length h1})"
      unfolding closed_def
    proof (intro ballI conjI)
      fix a assume a: "a \<in> reach h c \<union> {length h..<length h1}"
      with reach_bounded [OF wf vc] l1 show "a < length h2"
        by (auto simp: len2)
      show "refs (h2 ! a) \<subseteq> reach h c \<union> {length h..<length h1}"
      proof (cases "a = t")
        case True
        from cl_c tc ht have "refs (h1 ! t) \<subseteq> reach h c"
          by (simp add: closed_def)
        moreover from fv have "{b. v = VRef b} \<subseteq> {length h..<length h1}"
          by (auto simp: fresh_val_def)
        ultimately show ?thesis
          using rx True t1 by (auto simp: h2)
      next
        case False
        show ?thesis
        proof (cases "a < length h")
          case True
          with a have ac: "a \<in> reach h c" by auto
          from old [OF True False] have "h2 ! a = h ! a" by simp
          with cl_c ac show ?thesis by (auto simp: closed_def)
        next
          case nold: False
          with a reach_bounded [OF wf vc] have an: "length h \<le> a \<and> a < length h1"
            by auto
          with False have "h2 ! a = h1 ! a" by (simp add: h2)
          with np an show ?thesis by (auto simp: new_part_def)
        qed
      qed
    qed
  next
    fix a assume "c = VRef a"
    then show "a \<in> reach h c \<union> {length h..<length h1}"
      by (simp add: reach.root)
  qed
  have sep': "separate s'"
    unfolding separate_def
  proof (intro conjI ballI allI impI)
    show "wf_heap (heap s')" using wf2 by (simp add: s')
    show "valid (length (heap s')) (cfg s')"
      using vc l1 by (auto simp: s' len2 c_def intro: valid_mono)
  next
    fix e assume e: "e \<in> set (cfgs s')"
    with ents have ve: "valid (length h) e" and d: "reach h e \<inter> reach h c = {}"
      by (simp_all add: s')
    from ve l1 show "valid (length (heap s')) e"
      by (auto simp: s' len2 intro: valid_mono)
    from reach_bounded [OF wf ve] have "reach h e \<inter> {length h..<length h1} = {}"
      by auto
    with d rc same [OF ve d] show "reach (heap s') e \<inter> reach (heap s') (cfg s') = {}"
      by (auto simp: s' c_def)
  next
    fix i j assume ij: "i < length (cfgs s')" "j < length (cfgs s')" "i \<noteq> j"
    then have i: "cfgs s ! i \<in> set (cfgs s)" and j: "cfgs s ! j \<in> set (cfgs s)"
      by (simp_all add: s')
    from ents i have ri: "reach h2 (cfgs s ! i) = reach h (cfgs s ! i)"
      by (intro same) simp_all
    from ents j have rj: "reach h2 (cfgs s ! j) = reach h (cfgs s ! j)"
      by (intro same) simp_all
    from pw ij have "reach h (cfgs s ! i) \<inter> reach h (cfgs s ! j) = {}"
      by (simp add: s')
    with ri rj show "reach (heap s') (cfgs s' ! i) \<inter> reach (heap s') (cfgs s' ! j) = {}"
      by (simp add: s')
  qed
  have "keeps s s'"
    unfolding keeps_def
  proof (intro conjI ballI impI)
    fix e a assume "e \<in> set (cfgs s)" "a \<in> reach (heap s) e"
    with ents frame [of e a] show "a < length (heap s')" "heap s' ! a = heap s ! a"
      by (simp_all add: s' h_def)
  qed (simp_all add: s')
  with sep' show ?thesis ..
qed


lemma append_cfg_separate:
  assumes sep: "separate s" and ex: "exec_stmt ext m AppendCfg s = Inr s'"
  shows "separate s' \<and> keeps s s'"
proof -
  define h where "h = heap s"
  define c where "c = cfg s"
  from ex obtain v h1 where
    dc: "deepcopy h c = Inr (v, h1)" and s': "s' = s\<lparr>heap := h1, cfgs := cfgs s @ [v]\<rparr>"
    by (auto simp: h_def c_def and_then_Inr)
  from sep have wf: "wf_heap h" and vc: "valid (length h) c" and
    ents: "\<forall>e \<in> set (cfgs s). valid (length h) e \<and> reach h e \<inter> reach h c = {}" and
    pw: "\<forall>i < length (cfgs s). \<forall>j < length (cfgs s). i \<noteq> j \<longrightarrow>
           reach h (cfgs s ! i) \<inter> reach h (cfgs s ! j) = {}"
    by (simp_all add: separate_def h_def c_def)
  from deepcopy_new_reach [OF dc] have np: "new_part h h1" and
    rv: "reach h1 v \<subseteq> {length h..<length h1}" and vv: "valid (length h1) v"
    by simp_all
  note l1 = new_part_length [OF np]
  have wf1: "wf_heap h1" using wf np by (rule wf_heap_new_part)
  have same: "reach h1 r = reach h r" if "valid (length h) r" for r
    using wf that np by (rule reach_new_part)
  have low: "reach h r \<inter> {length h..<length h1} = {}" if "valid (length h) r" for r
    using reach_bounded [OF wf that] by auto
  have sep': "separate s'"
    unfolding separate_def
  proof (intro conjI ballI allI impI)
    show "wf_heap (heap s')" using wf1 by (simp add: s')
    show "valid (length (heap s')) (cfg s')"
      using vc l1 by (auto simp: s' c_def intro: valid_mono)
  next
    fix e assume e: "e \<in> set (cfgs s')"
    then consider "e \<in> set (cfgs s)" | "e = v" by (auto simp: s')
    then have "valid (length h1) e \<and> reach h1 e \<inter> reach h1 c = {}"
    proof cases
      case 1
      with ents have ve: "valid (length h) e" and d: "reach h e \<inter> reach h c = {}"
        by simp_all
      from ve l1 have "valid (length h1) e" by (rule valid_mono)
      with d same [OF ve] same [OF vc] show ?thesis by simp
    next
      case 2
      with rv low [OF vc] same [OF vc] vv show ?thesis by auto
    qed
    then show "valid (length (heap s')) e"
      "reach (heap s') e \<inter> reach (heap s') (cfg s') = {}"
      by (simp_all add: s' c_def)
  next
    fix i j assume ij: "i < length (cfgs s')" "j < length (cfgs s')" "i \<noteq> j"
    have one: "reach h1 ((cfgs s @ [v]) ! i) \<inter> reach h1 ((cfgs s @ [v]) ! j) = {}"
      if i: "i < length (cfgs s)" and j: "j \<le> length (cfgs s)" and ne: "i \<noteq> j" for i j
    proof (cases "j < length (cfgs s)")
      case True
      from ents i True have "valid (length h) (cfgs s ! i)" "valid (length h) (cfgs s ! j)"
        by simp_all
      with pw i True ne same show ?thesis
        by (simp add: nth_append)
    next
      case False
      with j have jl: "j = length (cfgs s)" by simp
      from ents i have "valid (length h) (cfgs s ! i)" by simp
      from same [OF this] low [OF this] rv i jl show ?thesis
        by (auto simp: nth_append)
    qed
    from ij have "i < length (cfgs s) \<or> j < length (cfgs s)"
      by (auto simp: s')
    then show "reach (heap s') (cfgs s' ! i) \<inter> reach (heap s') (cfgs s' ! j) = {}"
    proof
      assume "i < length (cfgs s)"
      with one [of i j] ij show ?thesis by (simp add: s')
    next
      assume "j < length (cfgs s)"
      with one [of j i] ij show ?thesis by (auto simp: s')
    qed
  qed
  have "keeps s s'"
    unfolding keeps_def
  proof (intro conjI ballI impI)
    fix e a assume "a < length (heap s)"
    with new_part_nth [OF np] l1 show "a < length (heap s')" "heap s' ! a = heap s ! a"
      by (simp_all add: s' h_def)
  qed (simp_all add: s')
  with sep' show ?thesis ..
qed

lemma separate_heap_cong:
  assumes "separate s" and "heap s' = heap s" and "cfg s' = cfg s" and "cfgs s' = cfgs s"
  shows "separate s'"
  using assms by (simp add: separate_def)

lemma keeps_heap_cong:
  assumes "heap s' = heap s" and "cfgs s' = cfgs s"
  shows "keeps s s'"
  using assms by (simp add: keeps_def)

lemma exec_stmt_separate:
  assumes "separate s" and "exec_stmt ext m st s = Inr s'"
  shows "separate s' \<and> (st \<noteq> InitLists \<longrightarrow> keeps s s')"
proof (cases st)
  case (Assign path k e)
  from assign_separate [OF assms(1) assms(2) [unfolded Assign]] show ?thesis by simp
next
  case InitLists
  with assms show ?thesis by (auto simp: separate_def)
next
  case AppendCfg
  from append_cfg_separate [OF assms(1) assms(2) [unfolded AppendCfg]] show ?thesis by simp
next
  case (AppendLabel l)
  with assms(2) have "heap s' = heap s" "cfg s' = cfg s" "cfgs s' = cfgs s" by auto
  with assms(1) AppendLabel show ?thesis
    by (simp add: separate_heap_cong keeps_heap_cong)
next
  case (RunBatch n)
  with assms(2) have "heap s' = heap s" "cfg s' = cfg s" "cfgs s' = cfgs s"
    by (auto simp: and_then_Inr)
  with assms(1) RunBatch show ?thesis
    by (simp add: separate_heap_cong keeps_heap_cong)
qed

lemma keeps_refl: "keeps s s"
  by (simp add: keeps_def)

lemma keeps_reach:
  assumes "separate s" and "keeps s s'" and "e \<in> set (cfgs s)"
  shows "reach (heap s') e = reach (heap s) e"
proof -
  from assms(1,3) have wf: "wf_heap (heap s)" and ve: "valid (length (heap s)) e"
    by (simp_all add: separate_def)
  show ?thesis
  proof (rule reach_agree [OF closed_reach [OF wf ve]])
    fix a assume a: "a \<in> reach (heap s) e"
    with reach_bounded [OF wf ve] have "a < length (heap s)" by auto
    with a assms(2,3) show "a < length (heap s') \<and> heap s' ! a = heap s ! a"
      by (simp add: keeps_def)
  next
    fix a assume "e = VRef a"
    then show "a \<in> reach (heap s) e" by (rule reach.root)
  qed
qed

lemma keeps_trans:
  assumes sep: "separate s1" and k1: "keeps s1 s2" and k2: "keeps s2 s3"
  shows "keeps s1 s3"
  unfolding keeps_def
proof (intro conjI ballI impI)
  from k1 k2 have l: "length (cfgs s1) \<le> length (cfgs s2)" "length (cfgs s2) \<le> length (cfgs s3)"
    and t: "take (length (cfgs s1)) (cfgs s2) = cfgs s1"
      "take (length (cfgs s2)) (cfgs s3) = cfgs s2"
    by (simp_all add: keeps_def)
  from l show "length (cfgs s1) \<le> length (cfgs s3)" by simp
  from l have "take (length (cfgs s1)) (cfgs s3)
      = take (length (cfgs s1)) (take (length (cfgs s2)) (cfgs s3))"
    by (simp add: min_def)
  with t show "take (length (cfgs s1)) (cfgs s3) = cfgs s1" by simp
  fix e a assume e: "e \<in> set (cfgs s1)" and a: "a \<in> reach (heap s1) e"
    and al: "a < length (heap s1)"
  from t(1) e have e2: "e \<in> set (cfgs s2)"
    by (metis in_set_takeD)
  from keeps_reach [OF sep k1 e] a have a2: "a \<in> reach (heap s2) e" by simp
  from k1 e a al have 12: "a < length (heap s2)" "heap s2 ! a = heap s1 ! a"
    by (simp_all add: keeps_def)
  with k2 e2 a2 have "a < length (heap s3)" "heap s3 ! a = heap s2 ! a"
    by (simp_all add: keeps_def)
  with 12 show "a < length (heap s3)" "heap s3 ! a = heap s1 ! a" by simp_all
qed

lemma exec_stmts_separate:
  assumes "separate s" and "exec_stmts ext m prog s = Inr s'"
  shows "separate s' \<and> (InitLists \<notin> set prog \<longrightarrow> keeps s s')"
  using assms
proof (induction prog arbitrary: s)
  case Nil
  then show ?case by (simp add: keeps_refl)
next
  case (Cons st prog)
  from Cons.prems(2) obtain s1 where
    1: "exec_stmt ext m st s = Inr s1" and 2: "exec_stmts ext m prog s1 = Inr s'"
    by (auto simp: and_then_Inr)
  from exec_stmt_separate [OF Cons.prems(1) 1] have
    sep1: "separate s1" and k1: "st \<noteq> InitLists \<longrightarrow> keeps s s1"
    by simp_all
  from Cons.IH [OF sep1 2] have
    sep': "separate s'" and k2: "InitLists \<notin> set prog \<longrightarrow> keeps s1 s'"
    by simp_all
  from k1 k2 keeps_trans [OF Cons.prems(1)] have "InitLists \<notin> set (st # prog) \<longrightarrow> keeps s s'"
    by auto
  with sep' show ?case ..
qed

subsection \<open>Copies never decide whether a later assignment succeeds\<close>

lemma getitem_append:
  assumes "getitem h c k = Inr c'"
  shows "getitem (h @ xs) c k = Inr c'"
proof (cases c)
  case (VRef a)
  with assms have "a < length h"
    by (auto simp: getitem_def split: if_splits)
  with assms VRef show ?thesis
    by (simp add: getitem_def nth_append)
qed (use assms in \<open>simp_all add: getitem_def\<close>)

lemma subscripts_append:
  assumes "subscripts h c ks = Inr c'"
  shows "subscripts (h @ xs) c ks = Inr c'"
  using assms
proof (induction ks arbitrary: c)
  case Nil
  then show ?case by simp
next
  case (Cons k ks)
  from Cons.prems obtain c1 where g: "getitem h c k = Inr c1" and
    r: "subscripts h c1 ks = Inr c'"
    by (auto simp: and_then_Inr)
  from getitem_append [OF g] Cons.IH [OF r] show ?case
    by simp
qed

lemma setitem_append:
  assumes "setitem h c k v = Inr h2"
  shows "setitem (h @ xs) c k v = Inr (h2 @ xs)"
proof (cases c)
  case (VRef a)
  with assms have a: "a < length h"
    by (auto simp: setitem_def split: if_splits)
  show ?thesis
  proof (cases "h ! a")
    case (Dict d)
    with assms VRef a show ?thesis
      by (auto simp: setitem_def nth_append list_update_append)
  next
    case (PyList vs)
    with assms VRef a show ?thesis
      by (auto simp: setitem_def nth_append list_update_append and_then_Inr split: key.splits)
  qed
qed (use assms in \<open>simp_all add: setitem_def\<close>)

lemma eval_scalar_lit:
  assumes "scalar_lit e"
  shows "\<exists>v. \<forall>h. eval_expr e h = (v, h)"
  using assms by (cases e) auto

lemma assign_append:
  assumes "scalar_lit e" and "exec_stmt ext m (Assign path k e) s = Inr s1"
    and "cfg t = cfg s" and "heap t = heap s @ xs"
  shows "\<exists>t1. exec_stmt ext m (Assign path k e) t = Inr t1 \<and>
               cfg t1 = cfg s1 \<and> heap t1 = heap s1 @ xs"
proof -
  from eval_scalar_lit [OF assms(1)] obtain v where v: "\<And>h. eval_expr e h = (v, h)"
    by blast
  from assms(2) v obtain c h2 where
    sub: "subscripts (heap s) (cfg s) path = Inr c" and
    st: "setitem (heap s) c k v = Inr h2" and s1: "s1 = s\<lparr>heap := h2\<rparr>"
    by (auto simp: and_then_Inr)
  from subscripts_append [OF sub] setitem_append [OF st] v assms(3,4)
  have "exec_stmt ext m (Assign path k e) t = Inr (t\<lparr>heap := h2 @ xs\<rparr>)"
    by simp
  with s1 assms(3) show ?thesis
    by simp
qed

lemma extends_append_ex:
  assumes "extends h h'"
  shows "\<exists>ys. h' = h @ ys"
proof -
  have "h' = take (length h) h' @ drop (length h) h'" by simp
  with assms have "h' = h @ drop (length h) h'" by (simp add: extends_def)
  then show ?thesis ..
qed

lemma append_cfg_total:
  assumes "separate t"
  shows "\<exists>v ys. exec_stmt ext m AppendCfg t = Inr (t\<lparr>heap := heap t @ ys, cfgs := cfgs t @ [v]\<rparr>)"
proof -
  from assms have "wf_heap (heap t)" "valid (length (heap t)) (cfg t)"
    by (simp_all add: separate_def)
  from deepcopy_total [OF this] obtain v h' where
    d: "deepcopy (heap t) (cfg t) = Inr (v, h')"
    by blast
  from deepcopy_new_reach [OF d] have "extends (heap t) h'"
    by (simp add: new_part_def)
  from extends_append_ex [OF this] obtain ys where "h' = heap t @ ys" ..
  with d show ?thesis
    by auto
qed

theorem copies_never_block:
  assumes "list_all no_alloc prog"
    and "exec_stmts ext m (filter is_assign prog) s = Inr s'"
    and "cfg t = cfg s" and "heap t = heap s @ xs" and "separate t"
  shows "\<exists>t'. exec_stmts ext m prog t = Inr t'"
  using assms
proof (induction prog arbitrary: s t xs)
  case Nil
  then show ?case by simp
next
  case (Cons st prog)
  from Cons.prems(1) have na: "no_alloc st" and rest: "list_all no_alloc prog"
    by simp_all
  show ?case
  proof (cases st)
    case (Assign path k e)
    with na have sc: "scalar_lit e" by simp
    from Cons.prems(2) Assign obtain s1 where
      1: "exec_stmt ext m (Assign path k e) s = Inr s1" and
      2: "exec_stmts ext m (filter is_assign prog) s1 = Inr s'"
      by (auto simp: and_then_Inr)
    from assign_append [OF sc 1 Cons.prems(3,4)] obtain t1 where
      t1: "exec_stmt ext m (Assign path k e) t = Inr t1" and
      c1: "cfg t1 = cfg s1" and h1: "heap t1 = heap s1 @ xs"
      by blast
    from exec_stmt_separate [OF Cons.prems(5) t1] have "separate t1" by simp
    from Cons.IH [OF rest 2 c1 h1 this] obtain t' where
      "exec_stmts ext m prog t1 = Inr t'" ..
    with t1 Assign show ?thesis by simp
  next
    case AppendCfg
    from append_cfg_total [OF Cons.prems(5), of ext m] obtain v ys where
      t1: "exec_stmt ext m AppendCfg t = Inr (t\<lparr>heap := heap t @ ys, cfgs := cfgs t @ [v]\<rparr>)"
      by blast
    define t1 where "t1 = t\<lparr>heap := heap t @ ys, cfgs := cfgs t @ [v]\<rparr>"
    from exec_stmt_separate [OF Cons.prems(5) t1] have sep: "separate t1"
      by (simp add: t1_def)
    from Cons.prems(2) AppendCfg have 2: "exec_stmts ext m (filter is_assign prog) s = Inr s'"
      by simp
    have "cfg t1 = cfg s" "heap t1 = heap s @ (xs @ ys)"
      using Cons.prems(3,4) by (simp_all add: t1_def)
    from Cons.IH [OF rest 2 this sep] obtain t' where
      "exec_stmts ext m prog t1 = Inr t'" ..
    with t1 AppendCfg show ?thesis by (simp add: t1_def)
  next
    case InitLists
    define t1 where "t1 = t\<lparr>cfgs := [], labels := []\<rparr>"
    have e: "exec_stmt ext m InitLists t = Inr t1" by (simp add: t1_def)
    from exec_stmt_separate [OF Cons.prems(5) e] have sep: "separate t1" by simp
    from Cons.prems(2) InitLists have 2: "exec_stmts ext m (filter is_assign prog) s = Inr s'"
      by simp
    have "cfg t1 = cfg s" "heap t1 = heap s @ xs"
      using Cons.prems(3,4) by (simp_all add: t1_def)
    from Cons.IH [OF rest 2 this sep] obtain t' where
      "exec_stmts ext m prog t1 = Inr t'" ..
    with e InitLists show ?thesis by simp
  next
    case (AppendLabel l)
    define t1 where "t1 = t\<lparr>labels := labels t @ [l]\<rparr>"
    have e: "exec_stmt ext m (AppendLabel l) t = Inr t1" by (simp add: t1_def)
    from exec_stmt_separate [OF Cons.prems(5) e] have sep: "separate t1" by simp
    from Cons.prems(2) AppendLabel have 2: "exec_stmts ext m (filter is_assign prog) s = Inr s'"
      by simp
    have "cfg t1 = cfg s" "heap t1 = heap s @ xs"
      using Cons.prems(3,4) by (simp_all add: t1_def)
    from Cons.IH [OF rest 2 this sep] obtain t' where
      "exec_stmts ext m prog t1 = Inr t'" ..
    with e AppendLabel show ?thesis by simp
  next
    case (RunBatch n)
    with na show ?thesis by simp
  qed
qed

subsection \<open>Unchanged objects denote unchanged values\<close>

lemma snapshot_agree:
  assumes c: "closed h S" and ag: "\<And>a. a \<in> S \<Longrightarrow> a < length h' \<and> h' ! a = h ! a"
    and v: "\<And>a. v = VRef a \<Longrightarrow> a \<in> S"
  shows "snapshot n h' v = snapshot n h v"
  using v
proof (induction n arbitrary: v)
  case 0
  show ?case by simp
next
  case (Suc n)
  show ?case
  proof (cases v)
    case (VRef a)
    with Suc.prems have aS: "a \<in> S" by simp
    with c ag have al: "a < length h" "a < length h'" and eq: "h' ! a = h ! a" and
      rs: "refs (h ! a) \<subseteq> S"
      by (simp_all add: closed_def)
    have kid: "snapshot n h' w = snapshot n h w" if "w \<in> set (children (h ! a))" for w
    proof (rule Suc.IH)
      fix b assume "w = VRef b"
      with that rs show "b \<in> S" by (auto simp: refs_def)
    qed
    show ?thesis
    proof (cases "h ! a")
      case (Dict d)
      have "map (\<lambda>(k, w). (k, snapshot n h' w)) d = map (\<lambda>(k, w). (k, snapshot n h w)) d"
      proof (rule map_cong [OF refl])
        fix p assume p: "p \<in> set d"
        then have "snd p \<in> set (children (h ! a))"
          by (simp add: Dict)
        from kid [OF this] show
          "(case p of (k, w) \<Rightarrow> (k, snapshot n h' w)) = (case p of (k, w) \<Rightarrow> (k, snapshot n h w))"
          by (cases p) simp
      qed
      with VRef al eq Dict show ?thesis by simp
    next
      case (PyList vs)
      have "map (snapshot n h') vs = map (snapshot n h) vs"
        by (rule map_cong [OF refl]) (simp add: kid PyList)
      with VRef al eq PyList show ?thesis by simp
    qed
  qed simp_all
qed

lemma keeps_snapshot:
  assumes "separate s" and "keeps s s'" and "e \<in> set (cfgs s)"
  shows "snapshot n (heap s') e = snapshot n (heap s) e"
proof -
  from assms(1,3) have wf: "wf_heap (heap s)" and ve: "valid (length (heap s)) e"
    by (simp_all add: separate_def)
  show ?thesis
  proof (rule snapshot_agree [OF closed_reach [OF wf ve]])
    fix a assume a: "a \<in> reach (heap s) e"
    with reach_bounded [OF wf ve] have "a < length (heap s)" by auto
    with a assms(2,3) show "a < length (heap s') \<and> heap s' ! a = heap s ! a"
      by (simp add: keeps_def)
  next
    fix a assume "e = VRef a"
    then show "a \<in> reach (heap s) e" by (rule reach.root)
  qed
qed

subsection \<open>What a program does to the variables\<close>

lemma exec_stmts_append:
  "exec_stmts ext m (p @ q) s = and_then (exec_stmts ext m p s) (exec_stmts ext m q)"
proof (induction p arbitrary: s)
  case Nil
  show ?case by simp
next
  case (Cons st p)
  show ?case
  proof (cases "exec_stmt ext m st s")
    case (Inl e)
    then show ?thesis by simp
  next
    case (Inr s1)
    with Cons.IH [of s1] show ?thesis by simp
  qed
qed

lemma exec_stmts_append_Inr:
  "exec_stmts ext m (p @ q) s = Inr s' \<longleftrightarrow>
     (\<exists>s1. exec_stmts ext m p s = Inr s1 \<and> exec_stmts ext m q s1 = Inr s')"
  by (simp add: exec_stmts_append and_then_Inr)


lemma exec_stmt_lists:
  assumes "exec_stmt ext m st s = Inr s'" and "st \<noteq> InitLists"
  shows "labels s' = labels s @ label_of st \<and>
         length (cfgs s') = length (cfgs s) + copies_of st"
  using assms by (cases st) (auto simp: and_then_Inr split: prod.splits)

lemma exec_stmts_lists:
  assumes "exec_stmts ext m prog s = Inr s'" and "InitLists \<notin> set prog"
  shows "labels s' = labels s @ appended_labels prog \<and>
         length (cfgs s') = length (cfgs s) + appended_cfgs prog"
  using assms
proof (induction prog arbitrary: s)
  case Nil
  then show ?case by (simp add: appended_labels_def appended_cfgs_def)
next
  case (Cons st prog)
  from Cons.prems obtain s1 where
    1: "exec_stmt ext m st s = Inr s1" and 2: "exec_stmts ext m prog s1 = Inr s'"
    by (auto simp: and_then_Inr)
  from Cons.prems(2) have ne: "st \<noteq> InitLists" and ni: "InitLists \<notin> set prog"
    by auto
  from exec_stmt_lists [OF 1 ne] Cons.IH [OF 2 ni] show ?case
    by (simp add: appended_labels_def appended_cfgs_def)
qed

lemma exec_stmt_batches:
  assumes "exec_stmt ext m st s = Inr s'" and "\<not> is_run_batch st"
  shows "batches s' = batches s \<and> sims s' = sims s"
  using assms by (cases st) (auto simp: and_then_Inr split: prod.splits)

lemma exec_stmts_batches:
  assumes "exec_stmts ext m prog s = Inr s'" and "list_all (\<lambda>st. \<not> is_run_batch st) prog"
  shows "batches s' = batches s \<and> sims s' = sims s"
  using assms
proof (induction prog arbitrary: s)
  case Nil
  then show ?case by simp
next
  case (Cons st prog)
  from Cons.prems obtain s1 where
    1: "exec_stmt ext m st s = Inr s1" and 2: "exec_stmts ext m prog s1 = Inr s'"
    by (auto simp: and_then_Inr)
  from Cons.prems(2) have a: "\<not> is_run_batch st" and
    b: "list_all (\<lambda>st. \<not> is_run_batch st) prog"
    by simp_all
  from exec_stmt_batches [OF 1 a] Cons.IH [OF 2 b] show ?case
    by simp
qed

text \<open>Statements other than \<^verbatim>\<open>run_batch\<close> do not consult the collaborators.\<close>

lemma exec_stmt_ext:
  assumes "\<not> is_run_batch st"
  shows "exec_stmt ext m st s = exec_stmt ext' m' st s"
  using assms by (cases st) simp_all

lemma exec_stmts_ext:
  assumes "list_all (\<lambda>st. \<not> is_run_batch st) prog"
  shows "exec_stmts ext m prog s = exec_stmts ext' m' prog s"
  using assms
proof (induction prog arbitrary: s)
  case Nil
  show ?case by simp
next
  case (Cons st prog)
  then have a: "\<not> is_run_batch st" and b: "list_all (\<lambda>st. \<not> is_run_batch st) prog"
    by simp_all
  have "exec_stmts ext m prog = exec_stmts ext' m' prog"
    using Cons.IH [OF b] by (rule ext)
  with exec_stmt_ext [OF a, of ext m s ext' m'] show ?case
    by (simp cong del: and_then_weak_cong)
qed

subsection \<open>Entries of a configuration that is a container are distinct objects\<close>






subsection \<open>The statements of the two notebooks\<close>

lemma labels_Entrainment:
  "appended_labels run_Entrainment_cell8 = [''GLS-C01A'', ''KPP-CVMix'', ''KPPLT-VR12'', ''KPPLT-LF17'']"
  by code_simp

lemma cfgs_Entrainment: "appended_cfgs run_Entrainment_cell8 = 4"
  by code_simp

lemma labels_KC04:
  "appended_labels (run_KC04_cell8 @ run_KC04_cell9) =
     [''KC04-MY-e6-1.0'', ''KC04-MY-e6-4.0'', ''KC04-MY-e6-6.0'', ''KC04-MY-e6-7.0'',
      ''KC04-k-omega-c4-0.150'', ''KC04-k-omega-c4-0.300'', ''KC04-k-omega-c4-0.555'',
      ''KC04-k-omega-c4-1.200'', ''KC04-MY-NS'', ''KC04-k-omega-NS'']"
  by code_simp

lemma cfgs_KC04: "appended_cfgs (run_KC04_cell8 @ run_KC04_cell9) = 10"
  by code_simp

lemma plain_update_configuration:
  "list_all (\<lambda>st. is_assign st) update_configuration"
  by code_simp

lemma plain_Entrainment:
  "list_all no_alloc ([InitLists] @ run_Entrainment_cell8)"
  by code_simp

lemma plain_KC04:
  "list_all no_alloc ([InitLists] @ run_KC04_cell8 @ run_KC04_cell9)"
  by code_simp

lemma lockstep_Entrainment: "lockstep run_Entrainment_cell8"
  by code_simp

lemma lockstep_KC04: "lockstep (run_KC04_cell8 @ run_KC04_cell9)"
  by code_simp

lemma format_e6list_distinct: "distinct (map (format_f 1) e6list)"
  by code_simp

lemma format_c4list_distinct: "distinct (map (format_f 3) c4list)"
  by code_simp

lemma wf_default_config: "wf_heap default_config"
  by code_simp

lemma assignments_Entrainment:
  "case exec_stmts gotmtool_stub ''Entrainment''
          (update_configuration @ filter is_assign ([InitLists] @ run_Entrainment_cell8))
          (init_state (print_environ (environ gotmtool_stub ''Entrainment'')) (VRef 0) default_config) of
     Inr s \<Rightarrow> True | Inl e \<Rightarrow> False"
  by code_simp

lemma assignments_KC04:
  "case exec_stmts gotmtool_stub ''Entrainment-KC04''
          (update_configuration @ filter is_assign ([InitLists] @ run_KC04_cell8 @ run_KC04_cell9))
          (init_state (print_environ (environ gotmtool_stub ''Entrainment-KC04'')) (VRef 0) default_config) of
     Inr s \<Rightarrow> True | Inl e \<Rightarrow> False"
  by code_simp

subsection \<open>Running a notebook from the top\<close>

lemma run_notebook_Inr:
  "run_notebook ext nb = Inr s \<longleftrightarrow>
     (\<exists>m c h. Model ext (nb_name nb) ''../gotmtool/.gotm_env.yaml'' = Inr m \<and>
        build ext m = Inr () \<and> init_config ext m = Inr (c, h) \<and>
        exec_stmts ext m (nb_code nb) (init_state (print_environ (environ ext m)) c h) = Inr s)"
  by (auto simp: run_notebook_def and_then_Inr)

lemma run_batch_last:
  "exec_stmts ext m (p @ [RunBatch n]) s = Inr s' \<longleftrightarrow>
     (\<exists>s1 r. exec_stmts ext m p s = Inr s1 \<and>
        run_batch ext m (heap s1) (cfgs s1) (labels s1) n = Inr r \<and>
        s' = s1\<lparr>sims := Some r, batches := batches s1 @ [(cfgs s1, labels s1, n)]\<rparr>)"
  by (auto simp: exec_stmts_append_Inr and_then_Inr)

lemma no_alloc_not_run_batch: "no_alloc st \<Longrightarrow> \<not> is_run_batch st"
  by (cases st) simp_all

lemma is_assign_not_run_batch: "is_assign st \<Longrightarrow> \<not> is_run_batch st"
  by (cases st) simp_all

lemma no_alloc_no_run_batch:
  "list_all no_alloc p \<Longrightarrow> list_all (\<lambda>st. \<not> is_run_batch st) p"
  by (induction p) (simp_all add: no_alloc_not_run_batch)

lemma is_assign_no_run_batch:
  "list_all (\<lambda>st. is_assign st) p \<Longrightarrow> list_all (\<lambda>st. \<not> is_run_batch st) p"
  by (induction p) (simp_all add: is_assign_not_run_batch)

lemma filter_is_assign_no_run_batch:
  "list_all (\<lambda>st. \<not> is_run_batch st) (filter is_assign p)"
  by (induction p) (simp_all add: is_assign_not_run_batch)

lemma is_assign_no_init: "list_all (\<lambda>st. is_assign st) p \<Longrightarrow> InitLists \<notin> set p"
  by (induction p) auto

lemma lockstep_no_init: "lockstep p \<Longrightarrow> InitLists \<notin> set p"
  by (induction p rule: lockstep.induct) simp_all

lemma separate_init_state:
  assumes "wf_heap h" and "valid (length h) c"
  shows "separate (init_state out c h)"
  using assms by (simp add: separate_def init_state_def)

text \<open>A program whose assignments succeed on a well-formed store succeeds, whatever the
  collaborators, as long as it allocates in the copies only.\<close>

lemma notebook_runs:
  fixes ext :: "('m, 'r) run_ext" and ext0 :: "('m0, 'r) run_ext"
  assumes wf: "wf_heap h" "valid (length h) c"
    and pre: "list_all (\<lambda>st. is_assign st) pre"
    and plain: "list_all no_alloc prog"
    and asg: "case exec_stmts ext0 m0 (pre @ filter is_assign prog) (init_state out c h) of
                Inr s \<Rightarrow> True | Inl e \<Rightarrow> False"
  shows "\<exists>s. exec_stmts ext m (pre @ prog) (init_state out c h) = Inr s"
proof -
  from asg obtain s' where
    "exec_stmts ext0 m0 (pre @ filter is_assign prog) (init_state out c h) = Inr s'"
    by (cases "exec_stmts ext0 m0 (pre @ filter is_assign prog) (init_state out c h)") simp_all
  then obtain s1 where
    1: "exec_stmts ext0 m0 pre (init_state out c h) = Inr s1" and
    2: "exec_stmts ext0 m0 (filter is_assign prog) s1 = Inr s'"
    by (auto simp: exec_stmts_append_Inr)
  from 1 have p1: "exec_stmts ext m pre (init_state out c h) = Inr s1"
    using exec_stmts_ext [OF is_assign_no_run_batch [OF pre], of ext m _ ext0 m0] by simp
  from 2 have p2: "exec_stmts ext m (filter is_assign prog) s1 = Inr s'"
    using exec_stmts_ext [OF filter_is_assign_no_run_batch, of ext m prog _ ext0 m0] by simp
  from exec_stmts_separate [OF separate_init_state [OF wf] p1] have sep: "separate s1" ..
  have "heap s1 = heap s1 @ []" by simp
  from copies_never_block [OF plain p2 refl this sep] obtain t' where
    "exec_stmts ext m prog s1 = Inr t'" ..
  with p1 show ?thesis
    by (auto simp: exec_stmts_append_Inr)
qed

text \<open>The shape both run notebooks have: assignments, the two empty lists, a body
  that appends, and one \<^verbatim>\<open>run_batch\<close> at the end.\<close>

lemma batch_program:
  assumes run: "exec_stmts ext m (pre @ [InitLists] @ body @ [RunBatch n]) s0 = Inr s"
    and pre: "list_all (\<lambda>st. is_assign st) pre"
    and body: "list_all no_alloc body" and ni: "InitLists \<notin> set body"
    and b0: "batches s0 = []"
  shows "batches s = [(cfgs s, labels s, n)]" and "labels s = appended_labels body"
    and "length (cfgs s) = appended_cfgs body"
    and "\<exists>r. sims s = Some r \<and> run_batch ext m (heap s) (cfgs s) (labels s) n = Inr r"
proof -
  have "pre @ [InitLists] @ body @ [RunBatch n] = (pre @ [InitLists] @ body) @ [RunBatch n]"
    by simp
  with run obtain s3 r where
    3: "exec_stmts ext m (pre @ [InitLists] @ body) s0 = Inr s3" and
    r: "run_batch ext m (heap s3) (cfgs s3) (labels s3) n = Inr r" and
    s: "s = s3\<lparr>sims := Some r, batches := batches s3 @ [(cfgs s3, labels s3, n)]\<rparr>"
    by (auto simp only: run_batch_last)
  from 3 obtain s1 s2 where
    1: "exec_stmts ext m pre s0 = Inr s1" and
    2: "exec_stmts ext m [InitLists] s1 = Inr s2" and
    b: "exec_stmts ext m body s2 = Inr s3"
    by (auto simp only: exec_stmts_append_Inr)
  from 2 have s2: "s2 = s1\<lparr>cfgs := [], labels := []\<rparr>" by simp
  from exec_stmts_batches [OF 1 is_assign_no_run_batch [OF pre]] b0
  have "batches s1 = []" by simp
  with s2 have "batches s2 = []" by simp
  with exec_stmts_batches [OF b no_alloc_no_run_batch [OF body]]
  have b3: "batches s3 = []" by simp
  from exec_stmts_lists [OF b ni] s2
  have l: "labels s3 = appended_labels body" "length (cfgs s3) = appended_cfgs body"
    by simp_all
  from s b3 show "batches s = [(cfgs s, labels s, n)]" by simp
  from s l show "labels s = appended_labels body" "length (cfgs s) = appended_cfgs body"
    by simp_all
  from s r show "\<exists>r. sims s = Some r \<and> run_batch ext m (heap s) (cfgs s) (labels s) n = Inr r"
    by simp
qed




lemma code_Entrainment:
  "nb_code run_Entrainment =
     update_configuration @ [InitLists] @ run_Entrainment_cell8 @ [RunBatch 4]"
  by (simp add: run_Entrainment_def run_Entrainment_code_def)

lemma code_KC04:
  "nb_code run_Entrainment_KC04 =
     update_configuration @ [InitLists] @ (run_KC04_cell8 @ run_KC04_cell9) @ [RunBatch 4]"
  by (simp add: run_Entrainment_KC04_def run_KC04_code_def)

lemma body_Entrainment:
  "list_all no_alloc run_Entrainment_cell8" "InitLists \<notin> set run_Entrainment_cell8"
  using plain_Entrainment lockstep_no_init [OF lockstep_Entrainment] by simp_all

lemma body_KC04:
  "list_all no_alloc (run_KC04_cell8 @ run_KC04_cell9)"
  "InitLists \<notin> set (run_KC04_cell8 @ run_KC04_cell9)"
  using plain_KC04 lockstep_no_init [OF lockstep_KC04] by simp_all

lemma init_state_batches: "batches (init_state out c h) = []"
  by (simp add: init_state_def)

lemma result_Entrainment:
  assumes "run_notebook ext run_Entrainment = Inr s"
  shows "batches s = [(cfgs s, labels s, 4)] \<and>
         labels s = [''GLS-C01A'', ''KPP-CVMix'', ''KPPLT-VR12'', ''KPPLT-LF17''] \<and>
         length (cfgs s) = 4 \<and>
         (\<exists>m r. Model ext ''Entrainment'' ''../gotmtool/.gotm_env.yaml'' = Inr m \<and>
            sims s = Some r \<and> run_batch ext m (heap s) (cfgs s) (labels s) 4 = Inr r)"
proof -
  from assms obtain m c h where
    m: "Model ext (nb_name run_Entrainment) ''../gotmtool/.gotm_env.yaml'' = Inr m" and
    run: "exec_stmts ext m (nb_code run_Entrainment)
            (init_state (print_environ (environ ext m)) c h) = Inr s"
    by (auto simp only: run_notebook_Inr)
  from m have m': "Model ext ''Entrainment'' ''../gotmtool/.gotm_env.yaml'' = Inr m"
    by (simp add: run_Entrainment_def)
  note bp = batch_program [OF run [unfolded code_Entrainment] plain_update_configuration
      body_Entrainment init_state_batches]
  from bp(4) obtain r where
    r: "sims s = Some r" "run_batch ext m (heap s) (cfgs s) (labels s) 4 = Inr r"
    by auto
  note l = bp(2) [unfolded labels_Entrainment]
  note c = bp(3) [unfolded cfgs_Entrainment]
  have e: "\<exists>m r. Model ext ''Entrainment'' ''../gotmtool/.gotm_env.yaml'' = Inr m \<and>
      sims s = Some r \<and> run_batch ext m (heap s) (cfgs s) (labels s) 4 = Inr r"
    by (intro exI conjI; rule m' r)
  show ?thesis
    by (intro conjI; rule bp(1) l c e)
qed

lemma result_KC04:
  assumes "run_notebook ext run_Entrainment_KC04 = Inr s"
  shows "batches s = [(cfgs s, labels s, 4)] \<and>
         labels s =
           [''KC04-MY-e6-1.0'', ''KC04-MY-e6-4.0'', ''KC04-MY-e6-6.0'', ''KC04-MY-e6-7.0'',
            ''KC04-k-omega-c4-0.150'', ''KC04-k-omega-c4-0.300'', ''KC04-k-omega-c4-0.555'',
            ''KC04-k-omega-c4-1.200'', ''KC04-MY-NS'', ''KC04-k-omega-NS''] \<and>
         length (cfgs s) = 10 \<and>
         (\<exists>m r. Model ext ''Entrainment-KC04'' ''../gotmtool/.gotm_env.yaml'' = Inr m \<and>
            sims s = Some r \<and> run_batch ext m (heap s) (cfgs s) (labels s) 4 = Inr r)"
proof -
  from assms obtain m c h where
    m: "Model ext (nb_name run_Entrainment_KC04) ''../gotmtool/.gotm_env.yaml'' = Inr m" and
    run: "exec_stmts ext m (nb_code run_Entrainment_KC04)
            (init_state (print_environ (environ ext m)) c h) = Inr s"
    by (auto simp only: run_notebook_Inr)
  from m have m': "Model ext ''Entrainment-KC04'' ''../gotmtool/.gotm_env.yaml'' = Inr m"
    by (simp add: run_Entrainment_KC04_def)
  note bp = batch_program [OF run [unfolded code_KC04] plain_update_configuration
      body_KC04 init_state_batches]
  from bp(4) obtain r where
    r: "sims s = Some r" "run_batch ext m (heap s) (cfgs s) (labels s) 4 = Inr r"
    by auto
  note l = bp(2) [unfolded labels_KC04]
  note c = bp(3) [unfolded cfgs_KC04]
  have e: "\<exists>m r. Model ext ''Entrainment-KC04'' ''../gotmtool/.gotm_env.yaml'' = Inr m \<and>
      sims s = Some r \<and> run_batch ext m (heap s) (cfgs s) (labels s) 4 = Inr r"
    by (intro exI conjI; rule m' r)
  show ?thesis
    by (intro conjI; rule bp(1) l c e)
qed

text \<open>With the collaborators of the examples both notebooks run to the end.\<close>

lemma stub_exec_Entrainment:
  fixes ext :: "('m, nat) run_ext"
  shows "\<exists>s. exec_stmts ext m (update_configuration @ [InitLists] @ run_Entrainment_cell8)
          (init_state (print_environ (environ gotmtool_stub ''Entrainment'')) (VRef 0)
             default_config) = Inr s"
proof (rule notebook_runs [OF wf_default_config _ plain_update_configuration
      plain_Entrainment assignments_Entrainment])
  show "valid (length default_config) (VRef 0)"
    by (simp add: default_config_def)
qed

lemma stub_exec_KC04:
  fixes ext :: "('m, nat) run_ext"
  shows "\<exists>s. exec_stmts ext m (update_configuration @ [InitLists] @ run_KC04_cell8 @ run_KC04_cell9)
          (init_state (print_environ (environ gotmtool_stub ''Entrainment-KC04'')) (VRef 0)
             default_config) = Inr s"
proof (rule notebook_runs [OF wf_default_config _ plain_update_configuration
      plain_KC04 assignments_KC04])
  show "valid (length default_config) (VRef 0)"
    by (simp add: default_config_def)
qed

lemma stub_runs_Entrainment: "\<exists>s. run_notebook gotmtool_stub run_Entrainment = Inr s"
proof -
  from stub_exec_Entrainment [of gotmtool_stub "''Entrainment''"] obtain s1 where
    1: "exec_stmts gotmtool_stub ''Entrainment''
          (update_configuration @ [InitLists] @ run_Entrainment_cell8)
          (init_state (print_environ (environ gotmtool_stub ''Entrainment'')) (VRef 0)
             default_config) = Inr s1" ..
  have c: "nb_code run_Entrainment =
      (update_configuration @ [InitLists] @ run_Entrainment_cell8) @ [RunBatch 4]"
    by (simp add: code_Entrainment)
  have r: "run_batch gotmtool_stub ''Entrainment'' (heap s1) (cfgs s1) (labels s1) 4 =
      Inr (length (cfgs s1))"
    by (simp add: gotmtool_stub_def)
  have "exec_stmts gotmtool_stub ''Entrainment'' (nb_code run_Entrainment)
          (init_state (print_environ (environ gotmtool_stub ''Entrainment'')) (VRef 0)
             default_config) =
        Inr (s1\<lparr>sims := Some (length (cfgs s1)),
                batches := batches s1 @ [(cfgs s1, labels s1, 4)]\<rparr>)"
    unfolding c run_batch_last using 1 r by blast
  moreover have "Model gotmtool_stub (nb_name run_Entrainment) ''../gotmtool/.gotm_env.yaml'' =
      Inr ''Entrainment''" "build gotmtool_stub ''Entrainment'' = Inr ()"
    "init_config gotmtool_stub ''Entrainment'' = Inr (VRef 0, default_config)"
    by (simp_all add: gotmtool_stub_def run_Entrainment_def)
  ultimately show ?thesis
    unfolding run_notebook_Inr by blast
qed

lemma stub_runs_KC04: "\<exists>s. run_notebook gotmtool_stub run_Entrainment_KC04 = Inr s"
proof -
  from stub_exec_KC04 [of gotmtool_stub "''Entrainment-KC04''"] obtain s1 where
    1: "exec_stmts gotmtool_stub ''Entrainment-KC04''
          (update_configuration @ [InitLists] @ run_KC04_cell8 @ run_KC04_cell9)
          (init_state (print_environ (environ gotmtool_stub ''Entrainment-KC04'')) (VRef 0)
             default_config) = Inr s1" ..
  have c: "nb_code run_Entrainment_KC04 =
      (update_configuration @ [InitLists] @ run_KC04_cell8 @ run_KC04_cell9) @ [RunBatch 4]"
    by (simp add: code_KC04)
  have r: "run_batch gotmtool_stub ''Entrainment-KC04'' (heap s1) (cfgs s1) (labels s1) 4 =
      Inr (length (cfgs s1))"
    by (simp add: gotmtool_stub_def)
  have "exec_stmts gotmtool_stub ''Entrainment-KC04'' (nb_code run_Entrainment_KC04)
          (init_state (print_environ (environ gotmtool_stub ''Entrainment-KC04'')) (VRef 0)
             default_config) =
        Inr (s1\<lparr>sims := Some (length (cfgs s1)),
                batches := batches s1 @ [(cfgs s1, labels s1, 4)]\<rparr>)"
    unfolding c run_batch_last using 1 r by blast
  moreover have
    "Model gotmtool_stub (nb_name run_Entrainment_KC04) ''../gotmtool/.gotm_env.yaml'' =
      Inr ''Entrainment-KC04''" "build gotmtool_stub ''Entrainment-KC04'' = Inr ()"
    "init_config gotmtool_stub ''Entrainment-KC04'' = Inr (VRef 0, default_config)"
    by (simp_all add: gotmtool_stub_def run_Entrainment_KC04_def)
  ultimately show ?thesis
    unfolding run_notebook_Inr by blast
qed

subsection \<open>Counting statements\<close>




lemma lockstep_counts: "lockstep p \<Longrightarrow> appended_cfgs p = length (appended_labels p)"
  by (induction p rule: lockstep.induct) (simp_all add: appended_cfgs_def appended_labels_def)

lemma lockstep_lengths:
  assumes "lockstep prog" and "exec_stmts ext m ([InitLists] @ prog) s = Inr s'"
  shows "length (cfgs s') = length (labels s')"
proof -
  from assms(2) have "exec_stmts ext m prog (s\<lparr>cfgs := [], labels := []\<rparr>) = Inr s'"
    by simp
  from exec_stmts_lists [OF this lockstep_no_init [OF assms(1)]] lockstep_counts [OF assms(1)]
  show ?thesis by simp
qed




section \<open>The batch handed to \<^verbatim>\<open>run_batch\<close>\<close>

text \<open>
  C6. When a run notebook has run to the end, \<^verbatim>\<open>run_batch\<close> was called with the final
  \<^verbatim>\<open>cfgs\<close> and \<^verbatim>\<open>labels\<close>, and these have the same length: 4 and 4 in
  \<^verbatim>\<open>run_Entrainment.ipynb\<close>, 10 and 10 in \<^verbatim>\<open>run_Entrainment-KC04.ipynb\<close>. The cells
  that fill the lists append in lockstep, and any program that does so, run after
  \<^verbatim>\<open>cfgs = []; labels = []\<close>, leaves two lists of the same length.
\<close>

theorem cfgs_labels_lockstep:
  "(run_notebook ext run_Entrainment = Inr s \<longrightarrow>
      batches s = [(cfgs s, labels s, 4)] \<and> length (cfgs s) = 4 \<and> length (labels s) = 4) \<and>
   (run_notebook ext run_Entrainment_KC04 = Inr s \<longrightarrow>
      batches s = [(cfgs s, labels s, 4)] \<and> length (cfgs s) = 10 \<and> length (labels s) = 10) \<and>
   lockstep run_Entrainment_cell8 \<and> lockstep (run_KC04_cell8 @ run_KC04_cell9) \<and>
   (lockstep prog \<and> exec_stmts ext m ([InitLists] @ prog) t = Inr t' \<longrightarrow>
      length (cfgs t') = length (labels t'))"
proof (intro conjI impI)
  assume r: "run_notebook ext run_Entrainment = Inr s"
  from result_Entrainment [OF r] show "batches s = [(cfgs s, labels s, 4)]"
    and "length (cfgs s) = 4" and "length (labels s) = 4"
    by simp_all
next
  assume r: "run_notebook ext run_Entrainment_KC04 = Inr s"
  from result_KC04 [OF r] show "batches s = [(cfgs s, labels s, 4)]"
    and "length (cfgs s) = 10" and "length (labels s) = 10"
    by simp_all
next
  show "lockstep run_Entrainment_cell8" by (rule lockstep_Entrainment)
  show "lockstep (run_KC04_cell8 @ run_KC04_cell9)" by (rule lockstep_KC04)
next
  assume "lockstep prog \<and> exec_stmts ext m ([InitLists] @ prog) t = Inr t'"
  then have a: "lockstep prog" and b: "exec_stmts ext m ([InitLists] @ prog) t = Inr t'"
    by simp_all
  from lockstep_lengths [OF a b] show "length (cfgs t') = length (labels t')" .
qed

theorem cfgs_labels_lockstep_witness:
  "(\<exists>s. run_notebook gotmtool_stub run_Entrainment = Inr s \<and>
        batches s = [(cfgs s, labels s, 4)] \<and> length (cfgs s) = 4 \<and> length (labels s) = 4) \<and>
   (\<exists>s. run_notebook gotmtool_stub run_Entrainment_KC04 = Inr s \<and>
        batches s = [(cfgs s, labels s, 4)] \<and> length (cfgs s) = 10 \<and>
        length (labels s) = 10) \<and>
   (\<exists>t'. lockstep [AppendCfg, AppendLabel ''a''] \<and>
        exec_stmts gotmtool_stub ''m'' ([InitLists] @ [AppendCfg, AppendLabel ''a''])
          (init_state [] (VInt 1) []) = Inr t' \<and>
        length (cfgs t') = length (labels t'))"
proof (intro conjI)
  from stub_runs_Entrainment obtain s where
    r: "run_notebook gotmtool_stub run_Entrainment = Inr s" ..
  from cfgs_labels_lockstep [THEN conjunct1, rule_format, OF r] r show "\<exists>s. run_notebook gotmtool_stub run_Entrainment = Inr s \<and>
        batches s = [(cfgs s, labels s, 4)] \<and> length (cfgs s) = 4 \<and> length (labels s) = 4"
    by (intro exI [of _ s]) simp
next
  from stub_runs_KC04 obtain s where
    r: "run_notebook gotmtool_stub run_Entrainment_KC04 = Inr s" ..
  from cfgs_labels_lockstep [THEN conjunct2, THEN conjunct1, rule_format, OF r] r show "\<exists>s. run_notebook gotmtool_stub run_Entrainment_KC04 = Inr s \<and>
        batches s = [(cfgs s, labels s, 4)] \<and> length (cfgs s) = 10 \<and>
        length (labels s) = 10"
    by (intro exI [of _ s]) simp
next
  let ?p = "[AppendCfg, AppendLabel ''a'']"
  let ?t = "init_state [] (VInt 1) [] :: nat nb_state"
  have l: "lockstep ?p" by simp
  obtain t' where e: "exec_stmts gotmtool_stub ''m'' ([InitLists] @ ?p) ?t = Inr t'"
    by (simp add: deepcopy_def init_state_def)
  from cfgs_labels_lockstep [THEN conjunct2, THEN conjunct2, THEN conjunct2, THEN conjunct2,
      rule_format, OF conjI [OF l e]]
  have "length (cfgs t') = length (labels t')" .
  with l e show "\<exists>t'. lockstep ?p \<and> exec_stmts gotmtool_stub ''m'' ([InitLists] @ ?p) ?t = Inr t' \<and>
      length (cfgs t') = length (labels t')"
    by (intro exI [of _ t'] conjI)
qed

text \<open>
  C2. The labels passed to \<^verbatim>\<open>run_batch\<close> are pairwise distinct: the four of
  \<^verbatim>\<open>run_Entrainment.ipynb\<close>, and the ten of \<^verbatim>\<open>run_Entrainment-KC04.ipynb\<close>, eight of
  which are produced by \<^verbatim>\<open>'{:.1f}'\<close> over \<^verbatim>\<open>e6list\<close> and \<^verbatim>\<open>'{:.3f}'\<close> over \<^verbatim>\<open>c4list\<close>; the
  two formats are injective on those lists.
\<close>

theorem labels_pairwise_distinct:
  "(run_notebook ext run_Entrainment = Inr s \<longrightarrow>
      batches s = [(cfgs s, labels s, 4)] \<and>
      labels s = [''GLS-C01A'', ''KPP-CVMix'', ''KPPLT-VR12'', ''KPPLT-LF17''] \<and>
      distinct (labels s)) \<and>
   (run_notebook ext run_Entrainment_KC04 = Inr s \<longrightarrow>
      batches s = [(cfgs s, labels s, 4)] \<and>
      labels s =
        [''KC04-MY-e6-1.0'', ''KC04-MY-e6-4.0'', ''KC04-MY-e6-6.0'', ''KC04-MY-e6-7.0'',
         ''KC04-k-omega-c4-0.150'', ''KC04-k-omega-c4-0.300'', ''KC04-k-omega-c4-0.555'',
         ''KC04-k-omega-c4-1.200'', ''KC04-MY-NS'', ''KC04-k-omega-NS''] \<and>
      distinct (labels s)) \<and>
   inj_on (format_f 1) (set e6list) \<and> inj_on (format_f 3) (set c4list)"
proof (intro conjI impI)
  assume r: "run_notebook ext run_Entrainment = Inr s"
  note res = result_Entrainment [OF r]
  from res show "batches s = [(cfgs s, labels s, 4)]"
    by (elim conjE)
  from res show l: "labels s = [''GLS-C01A'', ''KPP-CVMix'', ''KPPLT-VR12'', ''KPPLT-LF17'']"
    by (elim conjE)
  show "distinct (labels s)" unfolding l by simp
next
  assume r: "run_notebook ext run_Entrainment_KC04 = Inr s"
  note res = result_KC04 [OF r]
  from res show "batches s = [(cfgs s, labels s, 4)]"
    by (elim conjE)
  from res show l: "labels s =
        [''KC04-MY-e6-1.0'', ''KC04-MY-e6-4.0'', ''KC04-MY-e6-6.0'', ''KC04-MY-e6-7.0'',
         ''KC04-k-omega-c4-0.150'', ''KC04-k-omega-c4-0.300'', ''KC04-k-omega-c4-0.555'',
         ''KC04-k-omega-c4-1.200'', ''KC04-MY-NS'', ''KC04-k-omega-NS'']"
    by (elim conjE)
  show "distinct (labels s)" unfolding l by simp
next
  from format_e6list_distinct show "inj_on (format_f 1) (set e6list)"
    by (simp only: distinct_map)
  from format_c4list_distinct show "inj_on (format_f 3) (set c4list)"
    by (simp only: distinct_map)
qed

theorem labels_pairwise_distinct_witness:
  "(\<exists>s. run_notebook gotmtool_stub run_Entrainment = Inr s \<and>
        labels s = [''GLS-C01A'', ''KPP-CVMix'', ''KPPLT-VR12'', ''KPPLT-LF17''] \<and>
        distinct (labels s)) \<and>
   (\<exists>s. run_notebook gotmtool_stub run_Entrainment_KC04 = Inr s \<and> length (labels s) = 10 \<and>
        distinct (labels s))"
proof (intro conjI)
  from stub_runs_Entrainment obtain s where
    r: "run_notebook gotmtool_stub run_Entrainment = Inr s" ..
  from labels_pairwise_distinct [THEN conjunct1, rule_format, OF r]
  have "labels s = [''GLS-C01A'', ''KPP-CVMix'', ''KPPLT-VR12'', ''KPPLT-LF17'']"
    and "distinct (labels s)"
    by (rule conjunct2 [THEN conjunct1], rule conjunct2 [THEN conjunct2])
  with r show "\<exists>s. run_notebook gotmtool_stub run_Entrainment = Inr s \<and>
        labels s = [''GLS-C01A'', ''KPP-CVMix'', ''KPPLT-VR12'', ''KPPLT-LF17''] \<and>
        distinct (labels s)"
    by (intro exI [of _ s] conjI)
next
  from stub_runs_KC04 obtain s where
    r: "run_notebook gotmtool_stub run_Entrainment_KC04 = Inr s" ..
  from labels_pairwise_distinct [THEN conjunct2, THEN conjunct1, rule_format, OF r]
  have l: "labels s =
        [''KC04-MY-e6-1.0'', ''KC04-MY-e6-4.0'', ''KC04-MY-e6-6.0'', ''KC04-MY-e6-7.0'',
         ''KC04-k-omega-c4-0.150'', ''KC04-k-omega-c4-0.300'', ''KC04-k-omega-c4-0.555'',
         ''KC04-k-omega-c4-1.200'', ''KC04-MY-NS'', ''KC04-k-omega-NS'']"
    and d: "distinct (labels s)"
    by (rule conjunct2 [THEN conjunct1], rule conjunct2 [THEN conjunct2])
  from l have "length (labels s) = 10" by simp
  with r d show "\<exists>s. run_notebook gotmtool_stub run_Entrainment_KC04 = Inr s \<and>
      length (labels s) = 10 \<and> distinct (labels s)"
    by (intro exI [of _ s] conjI)
qed



section \<open>The plot notebook\<close>

subsection \<open>Case names and styles\<close>

lemma getitem_seq_append_last:
  "getitem_seq (xs @ [x]) (int (length xs)) = Inr x"
  by (simp add: getitem_seq_def)

lemma getitem_seq_neg1:
  "getitem_seq (xs @ [x]) (- 1) = Inr x"
  by (simp add: getitem_seq_def nat_add_distrib)

lemma getitem_seq_nat:
  "i < length xs \<Longrightarrow> getitem_seq xs (int i) = Inr (xs ! i)"
  by (simp add: getitem_seq_def)

lemma keys_setitem_dict: "fst ` set (setitem_dict d k v) = insert k (fst ` set d)"
  by (simp add: setitem_dict_def dom_update)

lemma getitem_seq_appended:
  assumes "length xs = nkpp + i"
  shows "getitem_seq (xs @ [x]) (int i + int nkpp) = Inr x"
proof -
  have "int i + int nkpp = int (length xs)"
    using assms by simp
  then show ?thesis
    by (simp only: getitem_seq_append_last)
qed

lemma e6_body_eq:
  assumes "length (casenames st) = nkpp + i" and "i < length ifrac"
  shows "e6_body nkpp ifrac i e6 st = Inr
           \<lparr> casenames = casenames st @ [''KC04-MY-e6-'' @ format_f 1 e6],
             labels_plot = setitem_dict (labels_plot st) (''KC04-MY-e6-'' @ format_f 1 e6)
                             (''$e_6$='' @ format_f 1 e6),
             colors = setitem_dict (colors st) (''KC04-MY-e6-'' @ format_f 1 e6)
                        (Rainbow (ifrac ! i)),
             markers = setitem_dict (markers st) (''KC04-MY-e6-'' @ format_f 1 e6) ''o'' \<rparr>"
proof -
  define name where "name = ''KC04-MY-e6-'' @ format_f 1 e6"
  define lab where "lab = ''$e_6$='' @ format_f 1 e6"
  have k: "getitem_seq (casenames st @ [name]) (int i + int nkpp) = Inr name"
    using assms(1) by (rule getitem_seq_appended)
  have x: "getitem_seq ifrac (int i) = Inr (ifrac ! i)"
    using assms(2) by (rule getitem_seq_nat)
  show ?thesis
    unfolding e6_body_def Let_def name_def [symmetric] lab_def [symmetric]
    by (simp add: k x)
qed

lemma e6_body_keys:
  assumes "length (casenames st) = nkpp + i" and "i < length ifrac" and "keys_ok st"
  shows "\<exists>st'. e6_body nkpp ifrac i e6 st = Inr st' \<and> keys_ok st' \<and>
           casenames st' = casenames st @ [''KC04-MY-e6-'' @ format_f 1 e6]"
  using assms(3) unfolding e6_body_eq [OF assms(1,2)]
  by (simp add: keys_ok_def keys_setitem_dict)

lemma e6_loop_keys:
  assumes "length (casenames st) = nkpp + i" and "i + length es \<le> length ifrac" and "keys_ok st"
  shows "\<exists>st'. e6_loop nkpp ifrac i es st = Inr st' \<and> keys_ok st' \<and>
           casenames st' = casenames st @ map (\<lambda>e6. ''KC04-MY-e6-'' @ format_f 1 e6) es"
  using assms
proof (induction es arbitrary: i st)
  case Nil
  then show ?case by simp
next
  case (Cons e6 es)
  from Cons.prems have "i < length ifrac" by simp
  from e6_body_keys [OF Cons.prems(1) this Cons.prems(3), of e6] obtain st1 where
    b: "e6_body nkpp ifrac i e6 st = Inr st1" and k: "keys_ok st1" and
    c: "casenames st1 = casenames st @ [''KC04-MY-e6-'' @ format_f 1 e6]"
    by blast
  from c Cons.prems(1) have l: "length (casenames st1) = nkpp + Suc i" by simp
  from Cons.prems(2) have "Suc i + length es \<le> length ifrac" by simp
  from Cons.IH [OF l this k] obtain st' where
    "e6_loop nkpp ifrac (Suc i) es st1 = Inr st'" "keys_ok st'"
    "casenames st' = casenames st1 @ map (\<lambda>e6. ''KC04-MY-e6-'' @ format_f 1 e6) es"
    by blast
  with b c show ?case
    by simp
qed

lemma no_stokes_case_keys:
  assumes "keys_ok st"
  shows "\<exists>st'. no_stokes_case st = Inr st' \<and> keys_ok st' \<and>
           casenames st' = casenames st @ [''KC04-MY-NS'']"
  using assms
  by (simp add: no_stokes_case_def Let_def getitem_seq_neg1 keys_ok_def keys_setitem_dict)

lemma scatter_style_total:
  assumes "keys_ok st" and "c \<in> set (casenames st)"
  shows "\<exists>sty. scatter_style st c = Inr sty"
proof -
  from assms have "c \<in> fst ` set (colors st)" "c \<in> fst ` set (markers st)"
    "c \<in> fst ` set (labels_plot st)"
    by (simp_all add: keys_ok_def)
  then obtain col mk lab where "map_of (colors st) c = Some col"
    "map_of (markers st) c = Some mk" "map_of (labels_plot st) c = Some lab"
    by (metis domD dom_map_of_conv_image_fst)
  then show ?thesis
    by (simp add: scatter_style_def getitem_dict_def)
qed

lemma linspace_length: "length (linspace a b n) = n"
  by (simp add: linspace_def Let_def)

lemma case_styles_keys:
  "\<exists>st. case_styles e6s = Inr st \<and> keys_ok st \<and>
        casenames st = [''KPP-CVMix'', ''KPPLT-LF17''] @
          map (\<lambda>e6. ''KC04-MY-e6-'' @ format_f 1 e6) e6s @ [''KC04-MY-NS'']"
proof -
  have k0: "keys_ok plot_vars_init"
    by (simp add: keys_ok_def plot_vars_init_def)
  have l0: "length (casenames plot_vars_init) = length (casenames plot_vars_init) + 0"
    by simp
  have f: "0 + length e6s \<le> length (linspace (Fin 0) (Fin 1) (length e6s))"
    by (simp add: linspace_length)
  from e6_loop_keys [OF l0 f k0] obtain st1 where
    1: "e6_loop (length (casenames plot_vars_init)) (linspace (Fin 0) (Fin 1) (length e6s)) 0 e6s
          plot_vars_init = Inr st1" and k1: "keys_ok st1" and
    c1: "casenames st1 = casenames plot_vars_init @
           map (\<lambda>e6. ''KC04-MY-e6-'' @ format_f 1 e6) e6s"
    by blast
  from no_stokes_case_keys [OF k1] obtain st where
    2: "no_stokes_case st1 = Inr st" and k: "keys_ok st" and
    c2: "casenames st = casenames st1 @ [''KC04-MY-NS'']"
    by blast
  have cn: "casenames st = [''KPP-CVMix'', ''KPPLT-LF17''] @
      map (\<lambda>e6. ''KC04-MY-e6-'' @ format_f 1 e6) e6s @ [''KC04-MY-NS'']"
    unfolding c2 c1 by (simp add: plot_vars_init_def)
  from 1 2 have cs: "case_styles e6s = Inr st"
    by (simp add: case_styles_def Let_def)
  show ?thesis
    by (intro exI [of _ st] conjI; rule cs k cn)
qed

lemma format_f_e6list:
  "format_f 1 (float64 1.0) = ''1.0''" "format_f 1 (float64 4.0) = ''4.0''"
  "format_f 1 (float64 6.0) = ''6.0''" "format_f 1 (float64 7.0) = ''7.0''"
  by code_simp+

lemma e6_case_names:
  "map (\<lambda>e6. ''KC04-MY-e6-'' @ format_f 1 e6) e6list =
     [''KC04-MY-e6-1.0'', ''KC04-MY-e6-4.0'', ''KC04-MY-e6-6.0'', ''KC04-MY-e6-7.0'']"
  unfolding e6list_def list.map format_f_e6list by simp

text \<open>
  C9. Cell 2 of the plot notebook returns, for any list of \<^verbatim>\<open>e6\<close> values, with
  \<^verbatim>\<open>casenames\<close> holding the two KPP cases, one case per \<^verbatim>\<open>e6\<close> value and
  \<^verbatim>\<open>'KC04-MY-NS'\<close>, and with the key sets of \<^verbatim>\<open>labels\<close>, \<^verbatim>\<open>colors\<close> and \<^verbatim>\<open>markers\<close> all
  equal to the set of case names. So the three lookups of the figure loop succeed for
  every case in \<^verbatim>\<open>casenames\<close>.
\<close>

theorem style_dicts_cover_casenames:
  "\<exists>st. case_styles e6s = Inr st \<and>
        casenames st = [''KPP-CVMix'', ''KPPLT-LF17''] @
          map (\<lambda>e6. ''KC04-MY-e6-'' @ format_f 1 e6) e6s @ [''KC04-MY-NS''] \<and>
        fst ` set (labels_plot st) = set (casenames st) \<and>
        fst ` set (colors st) = set (casenames st) \<and>
        fst ` set (markers st) = set (casenames st) \<and>
        (\<forall>c \<in> set (casenames st). \<exists>sty. scatter_style st c = Inr sty)"
proof -
  from case_styles_keys [of e6s] obtain st where
    cs: "case_styles e6s = Inr st" and k: "keys_ok st" and
    cn: "casenames st = [''KPP-CVMix'', ''KPPLT-LF17''] @
      map (\<lambda>e6. ''KC04-MY-e6-'' @ format_f 1 e6) e6s @ [''KC04-MY-NS'']"
    by (elim exE conjE)
  from k have a: "fst ` set (labels_plot st) = set (casenames st)"
    and b: "fst ` set (colors st) = set (casenames st)"
    and c: "fst ` set (markers st) = set (casenames st)"
    by (simp_all add: keys_ok_def)
  have d: "\<forall>c \<in> set (casenames st). \<exists>sty. scatter_style st c = Inr sty"
    using scatter_style_total [OF k] by blast
  show ?thesis
    by (intro exI [of _ st] conjI; rule cs cn a b c d)
qed

theorem style_dicts_cover_casenames_witness:
  "\<exists>st. case_styles e6list = Inr st \<and>
        casenames st = [''KPP-CVMix'', ''KPPLT-LF17'', ''KC04-MY-e6-1.0'',
          ''KC04-MY-e6-4.0'', ''KC04-MY-e6-6.0'', ''KC04-MY-e6-7.0'', ''KC04-MY-NS''] \<and>
        fst ` set (colors st) = set (casenames st) \<and>
        (\<exists>sty. scatter_style st ''KC04-MY-e6-4.0'' = Inr sty)"
proof -
  from style_dicts_cover_casenames [of e6list] obtain st where all:
    "case_styles e6list = Inr st \<and>
     casenames st = [''KPP-CVMix'', ''KPPLT-LF17''] @
          map (\<lambda>e6. ''KC04-MY-e6-'' @ format_f 1 e6) e6list @ [''KC04-MY-NS''] \<and>
     fst ` set (labels_plot st) = set (casenames st) \<and>
     fst ` set (colors st) = set (casenames st) \<and>
     fst ` set (markers st) = set (casenames st) \<and>
     (\<forall>c \<in> set (casenames st). \<exists>sty. scatter_style st c = Inr sty)" ..
  from all have cs: "case_styles e6list = Inr st"
    by (rule conjunct1)
  from all have cn0: "casenames st = [''KPP-CVMix'', ''KPPLT-LF17''] @
          map (\<lambda>e6. ''KC04-MY-e6-'' @ format_f 1 e6) e6list @ [''KC04-MY-NS'']"
    by (elim conjE)
  from all have col: "fst ` set (colors st) = set (casenames st)"
    by (elim conjE)
  from all have tot: "\<forall>c \<in> set (casenames st). \<exists>sty. scatter_style st c = Inr sty"
    by (elim conjE)
  have cn: "casenames st = [''KPP-CVMix'', ''KPPLT-LF17'', ''KC04-MY-e6-1.0'',
      ''KC04-MY-e6-4.0'', ''KC04-MY-e6-6.0'', ''KC04-MY-e6-7.0'', ''KC04-MY-NS'']"
    unfolding cn0 e6_case_names by simp
  then have "''KC04-MY-e6-4.0'' \<in> set (casenames st)"
    by simp
  with tot have sc: "\<exists>sty. scatter_style st ''KC04-MY-e6-4.0'' = Inr sty"
    by blast
  show ?thesis
    by (intro exI [of _ st] conjI; rule cs cn col sc)
qed


subsection \<open>The datasets\<close>

lemma map_of_setitem_dict: "map_of (setitem_dict d k v) = (map_of d)(k \<mapsto> v)"
  by (simp add: setitem_dict_def update_conv')

lemma load_loop_result:
  assumes "load_loop ext w dir cs (sims0, dataset0) = Inr (sims_d, dataset)"
  shows "fst ` set dataset = fst ` set dataset0 \<union> set cs \<and>
         (\<forall>c \<in> set cs. loaded_from ext w dir dataset c) \<and>
         (\<forall>c. c \<notin> set cs \<longrightarrow> map_of dataset c = map_of dataset0 c)"
  using assms
proof (induction cs arbitrary: sims0 dataset0)
  case Nil
  then show ?case by simp
next
  case (Cons c cs)
  from Cons.prems obtain sim d where
    sim: "Simulation ext (dir @ ''/'' @ c) = Inr sim" and
    d: "load_data ext w sim = Inr d" and
    rest: "load_loop ext w dir cs (setitem_dict sims0 c sim, setitem_dict dataset0 c d)
             = Inr (sims_d, dataset)"
    by (auto simp: and_then_Inr)
  note ih = Cons.IH [OF rest]
  from ih have keys: "fst ` set dataset = fst ` set dataset0 \<union> set (c # cs)"
    by (simp add: keys_setitem_dict)
  from ih have tl: "\<forall>c' \<in> set cs. loaded_from ext w dir dataset c'"
    by simp
  from ih have other: "\<forall>c'. c' \<notin> set cs \<longrightarrow> map_of dataset c' = ((map_of dataset0)(c \<mapsto> d)) c'"
    by (simp add: map_of_setitem_dict)
  have hd: "loaded_from ext w dir dataset c"
  proof (cases "c \<in> set cs")
    case True
    with tl show ?thesis by simp
  next
    case False
    with other have "map_of dataset c = Some d" by simp
    with sim d show ?thesis
      unfolding loaded_from_def by (intro exI conjI)
  qed
  from other have "\<forall>c'. c' \<notin> set (c # cs) \<longrightarrow> map_of dataset c' = map_of dataset0 c'"
    by simp
  with keys hd tl show ?case
    by simp
qed

lemma load_loop_distinct:
  assumes "load_loop ext w dir cs (sims0, dataset0) = Inr (sims_d, dataset)"
    and "distinct (map fst dataset0)"
  shows "distinct (map fst dataset)"
  using assms
proof (induction cs arbitrary: sims0 dataset0)
  case Nil
  then show ?case by simp
next
  case (Cons c cs)
  from Cons.prems(1) obtain sim d where
    rest: "load_loop ext w dir cs (setitem_dict sims0 c sim, setitem_dict dataset0 c d)
             = Inr (sims_d, dataset)"
    by (auto simp: and_then_Inr)
  from Cons.prems(2) have "distinct (map fst (setitem_dict dataset0 c d))"
    by (simp add: setitem_dict_def distinct_update)
  from Cons.IH [OF rest this] show ?case .
qed

text \<open>
  C8. When the load loop of cell 4 has run through, \<^verbatim>\<open>dataset\<close> is a mapping, its key set
  is the set of the case names, and for every case \<^verbatim>\<open>dataset[case]\<close> is what
  \<^verbatim>\<open>Simulation(path=casedir+'/'+case).load_data()\<close> returned. The theorem holds for any
  directory and any list of cases; the notebook runs the cell on \<open>casedir\<close> and
  \<^verbatim>\<open>casenames\<close>.
\<close>

theorem dataset_keys_and_values:
  assumes "load_cell ext w dir cases = Inr (sims_d, dataset)"
  shows "distinct (map fst dataset) \<and> fst ` set dataset = set cases \<and>
         (\<forall>c \<in> set cases.
            \<exists>sim d. Simulation ext (dir @ ''/'' @ c) = Inr sim \<and>
                    load_data ext w sim = Inr d \<and> getitem_dict dataset c = Inr d)"
proof -
  from assms have ll: "load_loop ext w dir cases ([], []) = Inr (sims_d, dataset)"
    by (simp add: load_cell_def)
  from load_loop_result [OF ll]
  have k: "fst ` set dataset = set cases" and
    l: "\<forall>c \<in> set cases. loaded_from ext w dir dataset c"
    by simp_all
  from l have v: "\<forall>c \<in> set cases.
            \<exists>sim d. Simulation ext (dir @ ''/'' @ c) = Inr sim \<and>
                    load_data ext w sim = Inr d \<and> getitem_dict dataset c = Inr d"
    unfolding loaded_from_def getitem_dict_def by fastforce
  from load_loop_distinct [OF ll] have d: "distinct (map fst dataset)" by simp
  from d k v show ?thesis
    by (intro conjI)
qed

theorem dataset_keys_and_values_witness:
  "\<exists>sims_d dataset.
      load_cell plot_stub () casedir [''KPP-CVMix'', ''KC04-MY-NS''] = Inr (sims_d, dataset) \<and>
      fst ` set dataset = {''KPP-CVMix'', ''KC04-MY-NS''} \<and>
      getitem_dict dataset ''KC04-MY-NS'' = Inr (sample_data (casedir @ ''/KC04-MY-NS''))"
proof -
  obtain sims_d dataset where
    r: "load_cell plot_stub () casedir [''KPP-CVMix'', ''KC04-MY-NS''] = Inr (sims_d, dataset)"
    by (simp add: load_cell_def plot_stub_def)
  note t = dataset_keys_and_values [OF r]
  from t have k: "fst ` set dataset = {''KPP-CVMix'', ''KC04-MY-NS''}"
    by simp
  from t have "\<forall>c \<in> set [''KPP-CVMix'', ''KC04-MY-NS''].
      \<exists>sim d. Simulation plot_stub (casedir @ ''/'' @ c) = Inr sim \<and>
              load_data plot_stub () sim = Inr d \<and> getitem_dict dataset c = Inr d"
    by (elim conjE)
  then have "\<exists>sim d. Simulation plot_stub (casedir @ ''/'' @ ''KC04-MY-NS'') = Inr sim \<and>
      load_data plot_stub () sim = Inr d \<and> getitem_dict dataset ''KC04-MY-NS'' = Inr d"
    by simp
  then have v: "getitem_dict dataset ''KC04-MY-NS'' = Inr (sample_data (casedir @ ''/KC04-MY-NS''))"
    by (auto simp: plot_stub_def)
  from r k v show ?thesis
    by (intro exI conjI)
qed

subsection \<open>Errors of the collaborators\<close>



section \<open>Copies in the batch\<close>

lemma cfgs_KC04_cell8: "appended_cfgs run_KC04_cell8 = 8"
  by code_simp

lemma prefix_lists:
  assumes run: "exec_stmts ext m (pre @ [InitLists] @ body) s0 = Inr s"
    and ni: "InitLists \<notin> set body"
  shows "length (cfgs s) = appended_cfgs body"
proof -
  from run obtain s1 s2 where
    2: "exec_stmts ext m [InitLists] s1 = Inr s2" and
    b: "exec_stmts ext m body s2 = Inr s"
    by (auto simp only: exec_stmts_append_Inr)
  from 2 have s2: "s2 = s1\<lparr>cfgs := [], labels := []\<rparr>" by simp
  from exec_stmts_lists [OF b ni] s2 show ?thesis by simp
qed

text \<open>
  C3. Take a configuration in a well-formed store, run any statements of a notebook,
  and then any further statements that do not rebind \<^verbatim>\<open>cfgs\<close>: assignments to fields
  of \<^verbatim>\<open>cfg\<close> at any depth, further appends, \<^verbatim>\<open>run_batch\<close>. Every entry that \<^verbatim>\<open>cfgs\<close>
  held before the further statements is still there, at the same index, and denotes
  the same nested value to any depth; no object of it is reachable from \<^verbatim>\<open>cfg\<close> or from
  another entry.
\<close>

theorem appended_configurations_isolated:
  assumes "wf_heap h" and "valid (length h) c"
    and "exec_stmts ext m p1 (init_state out c h) = Inr s1"
    and "exec_stmts ext m p2 s1 = Inr s2" and "InitLists \<notin> set p2"
    and "i < length (cfgs s1)"
  shows "i < length (cfgs s2) \<and> cfgs s2 ! i = cfgs s1 ! i \<and>
         snapshot n (heap s2) (cfgs s2 ! i) = snapshot n (heap s1) (cfgs s1 ! i) \<and>
         reach (heap s2) (cfgs s2 ! i) \<inter> reach (heap s2) (cfg s2) = {} \<and>
         (\<forall>j < length (cfgs s2). j \<noteq> i \<longrightarrow>
            reach (heap s2) (cfgs s2 ! i) \<inter> reach (heap s2) (cfgs s2 ! j) = {})"
proof -
  from exec_stmts_separate [OF separate_init_state [OF assms(1,2)] assms(3)]
  have sep1: "separate s1" ..
  from exec_stmts_separate [OF sep1 assms(4)] assms(5)
  have sep2: "separate s2" and k: "keeps s1 s2" by simp_all
  from k have t: "take (length (cfgs s1)) (cfgs s2) = cfgs s1"
    and l: "length (cfgs s1) \<le> length (cfgs s2)"
    by (simp_all add: keeps_def)
  from l assms(6) have i2: "i < length (cfgs s2)" by simp
  from t assms(6) have e: "cfgs s2 ! i = cfgs s1 ! i"
    by (metis nth_take)
  from assms(6) have m1: "cfgs s1 ! i \<in> set (cfgs s1)" by simp
  from keeps_snapshot [OF sep1 k m1]
  have sn: "snapshot n (heap s2) (cfgs s2 ! i) = snapshot n (heap s1) (cfgs s1 ! i)"
    by (simp add: e)
  from i2 have m2: "cfgs s2 ! i \<in> set (cfgs s2)" by simp
  with sep2 have d1: "reach (heap s2) (cfgs s2 ! i) \<inter> reach (heap s2) (cfg s2) = {}"
    by (simp add: separate_def)
  from sep2 i2 have d2: "\<forall>j < length (cfgs s2). j \<noteq> i \<longrightarrow>
      reach (heap s2) (cfgs s2 ! i) \<inter> reach (heap s2) (cfgs s2 ! j) = {}"
    by (simp add: separate_def)
  from i2 e sn d1 d2 show ?thesis
    by (intro conjI)
qed

theorem appended_configurations_isolated_witness:
  "\<exists>s1 s2.
      exec_stmts gotmtool_stub ''Entrainment-KC04''
        (update_configuration @ [InitLists] @ run_KC04_cell8)
        (init_state (print_environ (environ gotmtool_stub ''Entrainment-KC04'')) (VRef 0)
           default_config) = Inr s1 \<and>
      exec_stmts gotmtool_stub ''Entrainment-KC04'' run_KC04_cell9 s1 = Inr s2 \<and>
      length (cfgs s1) = 8 \<and> cfgs s2 ! 7 = cfgs s1 ! 7 \<and>
      snapshot 6 (heap s2) (cfgs s2 ! 7) = snapshot 6 (heap s1) (cfgs s1 ! 7) \<and>
      reach (heap s2) (cfgs s2 ! 7) \<inter> reach (heap s2) (cfg s2) = {}"
proof -
  let ?s0 = "init_state (print_environ (environ gotmtool_stub ''Entrainment-KC04'')) (VRef 0)
      default_config :: nat nb_state"
  have v: "valid (length default_config) (VRef 0)"
    by (simp add: default_config_def)
  from stub_exec_KC04 [of gotmtool_stub "''Entrainment-KC04''"] obtain s2 where
    "exec_stmts gotmtool_stub ''Entrainment-KC04''
       (update_configuration @ [InitLists] @ run_KC04_cell8 @ run_KC04_cell9) ?s0 = Inr s2" ..
  then have "exec_stmts gotmtool_stub ''Entrainment-KC04''
       ((update_configuration @ [InitLists] @ run_KC04_cell8) @ run_KC04_cell9) ?s0 = Inr s2"
    by simp
  from iffD1 [OF exec_stmts_append_Inr this] obtain s1 where
    1: "exec_stmts gotmtool_stub ''Entrainment-KC04''
          (update_configuration @ [InitLists] @ run_KC04_cell8) ?s0 = Inr s1" and
    2: "exec_stmts gotmtool_stub ''Entrainment-KC04'' run_KC04_cell9 s1 = Inr s2"
    by (elim exE conjE)
  from body_KC04(2) have ni8: "InitLists \<notin> set run_KC04_cell8"
    and ni9: "InitLists \<notin> set run_KC04_cell9"
    by simp_all
  from prefix_lists [OF 1 ni8] have l: "length (cfgs s1) = 8"
    by (simp only: cfgs_KC04_cell8)
  then have i: "7 < length (cfgs s1)" by simp
  note t = appended_configurations_isolated [OF wf_default_config v 1 2 ni9 i, of 6]
  from t have a: "cfgs s2 ! 7 = cfgs s1 ! 7" by (elim conjE)
  from t have b: "snapshot 6 (heap s2) (cfgs s2 ! 7) = snapshot 6 (heap s1) (cfgs s1 ! 7)"
    by (elim conjE)
  from t have c: "reach (heap s2) (cfgs s2 ! 7) \<inter> reach (heap s2) (cfg s2) = {}"
    by (elim conjE)
  from 1 2 l a b c show ?thesis
    by (intro exI conjI)
qed

section \<open>Exceptions of the collaborators\<close>




end
